theory Spec2Isabelle
  imports Main "HOL-Library.Sublist"
begin

section \<open>Bytes and strings\<close>

text \<open>
  The object is a sequence of bytes (a \<^verbatim>\<open>Buffer\<close>), here a list of the 8-bit characters
  of HOL. A string of the program is a sequence of UTF-16 code units, here a list of
  natural numbers: the range requests count bytes, the string operations count code
  units.
\<close>

type_synonym utf16 = "nat list"

text \<open>
  \<^verbatim>\<open>Buffer.prototype.toString()\<close> with its default encoding, which is what
  \<^verbatim>\<open>buffer += d\<close> applies to a chunk \<^verbatim>\<open>d\<close> that is a \<^verbatim>\<open>Buffer\<close>. It is the UTF-8 decoder
  of the runtime: a well-formed sequence of one to four bytes becomes its code point
  (two surrogate code units for a code point above U+FFFF); every other byte, and every
  sequence that is ill-formed or cut off by the end of the buffer, becomes U+FFFD up to
  the byte where it stops being well-formed, and decoding goes on from that byte.
\<close>

definition surrogates :: "nat \<Rightarrow> utf16" where
  "surrogates cp = [0xD800 + (cp - 0x10000) div 1024, 0xDC00 + (cp - 0x10000) mod 1024]"

fun utf8 :: "nat list \<Rightarrow> utf16" where
  "utf8 [] = []"
| "utf8 (b # bs) =
     (if b < 0x80 then b # utf8 bs
      else if 0xC2 \<le> b \<and> b \<le> 0xDF then
        (case bs of
           [] \<Rightarrow> [0xFFFD]
         | c1 # r1 \<Rightarrow>
             if 0x80 \<le> c1 \<and> c1 \<le> 0xBF
             then ((b - 0xC0) * 64 + (c1 - 0x80)) # utf8 r1
             else 0xFFFD # utf8 bs)
      else if 0xE0 \<le> b \<and> b \<le> 0xEF then
        (case bs of
           [] \<Rightarrow> [0xFFFD]
         | c1 # r1 \<Rightarrow>
             if (if b = 0xE0 then 0xA0 else 0x80) \<le> c1 \<and>
                c1 \<le> (if b = 0xED then 0x9F else 0xBF)
             then (case r1 of
                     [] \<Rightarrow> [0xFFFD]
                   | c2 # r2 \<Rightarrow>
                       if 0x80 \<le> c2 \<and> c2 \<le> 0xBF
                       then ((b - 0xE0) * 4096 + (c1 - 0x80) * 64 + (c2 - 0x80)) # utf8 r2
                       else 0xFFFD # utf8 r1)
             else 0xFFFD # utf8 bs)
      else if 0xF0 \<le> b \<and> b \<le> 0xF4 then
        (case bs of
           [] \<Rightarrow> [0xFFFD]
         | c1 # r1 \<Rightarrow>
             if (if b = 0xF0 then 0x90 else 0x80) \<le> c1 \<and>
                c1 \<le> (if b = 0xF4 then 0x8F else 0xBF)
             then (case r1 of
                     [] \<Rightarrow> [0xFFFD]
                   | c2 # r2 \<Rightarrow>
                       if 0x80 \<le> c2 \<and> c2 \<le> 0xBF
                       then (case r2 of
                               [] \<Rightarrow> [0xFFFD]
                             | c3 # r3 \<Rightarrow>
                                 if 0x80 \<le> c3 \<and> c3 \<le> 0xBF
                                 then surrogates ((b - 0xF0) * 262144 + (c1 - 0x80) * 4096
                                                  + (c2 - 0x80) * 64 + (c3 - 0x80)) @ utf8 r3
                                 else 0xFFFD # utf8 r2)
                       else 0xFFFD # utf8 r1)
             else 0xFFFD # utf8 bs)
      else 0xFFFD # utf8 bs)"

definition toString :: "string \<Rightarrow> utf16" where
  "toString buffer = utf8 (map of_char buffer)"

text \<open>A string literal of the program is written below as the decoding of its bytes,
  as in \<open>toString ''ab''\<close>, or by its code units, as in \<open>[0x0D, 0x0A]\<close>.

  A buffer of ASCII bytes: every byte is below 0x80.\<close>

definition ascii :: "string \<Rightarrow> bool" where
  "ascii buffer = (\<forall>c \<in> set buffer. (of_char c :: nat) < 0x80)"

text \<open>\<^verbatim>\<open>String.prototype.indexOf(needle)\<close>: the first index at which \<open>needle\<close> occurs,
  \<open>None\<close> for the result \<open>-1\<close>. The empty needle occurs at index 0 of every string.\<close>

fun indexOf :: "'a list \<Rightarrow> 'a list \<Rightarrow> nat option" where
  "indexOf [] needle = (if needle = [] then Some 0 else None)"
| "indexOf (c # cs) needle =
     (if prefix needle (c # cs) then Some 0 else map_option Suc (indexOf cs needle))"

text \<open>\<^verbatim>\<open>substring(start, end)\<close> (the arguments are swapped when \<open>start > end\<close>) and
  \<^verbatim>\<open>substring(start)\<close>; both clamp to the length of the string.\<close>

definition substring :: "'a list \<Rightarrow> nat \<Rightarrow> nat \<Rightarrow> 'a list" where
  "substring s a b = (if a \<le> b then take (b - a) (drop a s) else take (a - b) (drop b s))"

definition substringFrom :: "'a list \<Rightarrow> nat \<Rightarrow> 'a list" where
  "substringFrom s a = drop a s"

section \<open>The S3 client\<close>

text \<open>
  A readable stream delivers some chunks of data, each a \<^verbatim>\<open>Buffer\<close>, and then either
  ends or fails. \<^verbatim>\<open>readStream\<close> appends every chunk to a string (\<^verbatim>\<open>buffer += d\<close>), which
  decodes the chunk on its own, and resolves with the string at the end of the stream,
  or rejects with the stream's error.
\<close>

datatype 'e stream = Readable "string list" "'e option"

definition readStream :: "'e stream \<Rightarrow> 'e + utf16" where
  "readStream st = (case st of Readable chunks err \<Rightarrow>
     (case err of None \<Rightarrow> Inr (concat (map toString chunks)) | Some e \<Rightarrow> Inl e))"

text \<open>
  The client is the external collaborator. \<open>headObject\<close> answers with the optional
  \<^verbatim>\<open>ContentLength\<close>, \<open>send\<close> answers a \<^verbatim>\<open>GetObjectCommand\<close> for the inclusive range
  \<^verbatim>\<open>bytes=lo-hi\<close> with an optional \<^verbatim>\<open>Body\<close>; either call may be rejected with an error
  (\<open>Inl\<close>). The client has a state of its own (\<open>'s\<close>), threaded through every call.
\<close>

record ('e, 's) s3 =
  headObject :: "string \<Rightarrow> string \<Rightarrow> 's \<Rightarrow> ('e + nat option) \<times> 's"
  send :: "string \<Rightarrow> string \<Rightarrow> nat \<Rightarrow> nat \<Rightarrow> 's \<Rightarrow> ('e + 'e stream option) \<times> 's"

text \<open>
  The mocked client of the test suite (\<^verbatim>\<open>getObjectMock\<close>): \<open>headObject\<close> resolves with
  the length of the data in bytes, \<open>send\<close> with a stream of the single chunk
  \<^verbatim>\<open>data.subarray(start, end + 1)\<close>, a \<^verbatim>\<open>Buffer\<close>. Its state counts the calls of
  \<open>send\<close>.
  A fault can be injected: the size query is rejected, or the \<open>n\<close>-th call of \<open>send\<close>
  (counted from 0) is rejected, or the stream of the \<open>n\<close>-th call fails; every other
  call is answered as before.
\<close>

datatype 'e fault = NoFault | HeadFault 'e | SendFault nat 'e | StreamFault nat 'e

definition subarray :: "string \<Rightarrow> nat \<Rightarrow> nat \<Rightarrow> string" where
  "subarray bytes start stop = take (stop - start) (drop start bytes)"

definition s3Mock :: "string \<Rightarrow> 'e fault \<Rightarrow> ('e, nat) s3" where
  "s3Mock bytes flt =
     \<lparr> headObject = (\<lambda>b k n.
         (case flt of HeadFault e \<Rightarrow> (Inl e, n) | _ \<Rightarrow> (Inr (Some (length bytes)), n))),
       send = (\<lambda>b k lo hi n.
         (case flt of
            SendFault m e \<Rightarrow>
              if n = m then (Inl e, Suc n)
              else (Inr (Some (Readable [subarray bytes lo (hi + 1)] None)), Suc n)
          | StreamFault m e \<Rightarrow>
              if n = m then (Inr (Some (Readable [] (Some e))), Suc n)
              else (Inr (Some (Readable [subarray bytes lo (hi + 1)] None)), Suc n)
          | _ \<Rightarrow> (Inr (Some (Readable [subarray bytes lo (hi + 1)] None)), Suc n))) \<rparr>"

section \<open>The reader\<close>

text \<open>
  The fields of \<^verbatim>\<open>S3LineReader\<close>. Offsets and sizes are natural numbers and count
  bytes; the carried-over text is a string.
  The field \<^verbatim>\<open>size\<close> is named \<open>size_bytes\<close> here.
\<close>

record reader =
  bucket :: string
  key :: string
  bufferSize :: nat
  byteOffset :: nat
  partial :: utf16
  size_bytes :: nat

text \<open>The constructor of \<^verbatim>\<open>s3-line-reader.ts\<close>; the buffer size defaults to 128 KiB.\<close>

definition S3LineReader :: "string \<Rightarrow> string \<Rightarrow> nat option \<Rightarrow> reader" where
  "S3LineReader b k bufSize =
     \<lparr> bucket = b, key = k,
       bufferSize = (case bufSize of None \<Rightarrow> 1024 * 128 | Some n \<Rightarrow> n),
       byteOffset = 0, partial = [], size_bytes = 0 \<rparr>"

section \<open>The generator\<close>

text \<open>
  A call of \<^verbatim>\<open>next()\<close> settles in one of four ways: a record is yielded
  (\<^verbatim>\<open>done: false\<close>), the generator returns its final value (\<^verbatim>\<open>done: true\<close>), the
  promise is rejected with an error, or the generator had already finished
  (\<^verbatim>\<open>value: undefined, done: true\<close>).
\<close>

datatype 'e step = Yield utf16 | Return utf16 | Throw 'e | Done

text \<open>
  The generator object is suspended at one of three places: before its first
  statement (holding the argument \<^verbatim>\<open>lineDelimiter\<close>), at the \<^verbatim>\<open>yield\<close> (holding the
  locals \<^verbatim>\<open>lineDelimiter\<close>, \<^verbatim>\<open>data\<close> and \<^verbatim>\<open>nextNewline\<close>), or after its end.
\<close>

datatype frame = Start utf16 | Suspended utf16 utf16 nat | Finished

text \<open>What a piece of the generator's body does next: go on with the following
  statement, or settle the pending \<^verbatim>\<open>next()\<close>.\<close>

datatype ('a, 'b) control = Continue 'a | Settle 'b

text \<open>
  The inner loop of \<^verbatim>\<open>s3-line-reader.ts\<close>, from its test \<^verbatim>\<open>while (data.length)\<close>.
  Every pass through it leaves the loop or suspends at the \<^verbatim>\<open>yield\<close>.
\<close>

definition scanLines ::
  "utf16 \<Rightarrow> utf16 \<Rightarrow> 'a reader_scheme \<Rightarrow> 's \<Rightarrow>
   ('a reader_scheme \<times> 's, 'e step \<times> frame \<times> 'a reader_scheme \<times> 's) control" where
  "scanLines lineDelimiter data r s =
     (if length data = 0 then Continue (r, s)
      else (case indexOf data lineDelimiter of
              None \<Rightarrow> Continue (r\<lparr>partial := data\<rparr>, s)
            | Some nextNewline \<Rightarrow>
                Settle (Yield (substring data 0 nextNewline),
                        Suspended lineDelimiter data nextNewline, r, s)))"

text \<open>One pass through the body of the outer loop, up to the inner loop.\<close>

definition fetchChunk ::
  "('e, 's) s3 \<Rightarrow> utf16 \<Rightarrow> 'a reader_scheme \<Rightarrow> 's \<Rightarrow>
   ('a reader_scheme \<times> 's, 'e step \<times> frame \<times> 'a reader_scheme \<times> 's) control" where
  "fetchChunk client lineDelimiter r s =
     (let byteOffsetTop = (if byteOffset r + bufferSize r > size_bytes r then size_bytes r
                           else byteOffset r + bufferSize r)
      in (case send client (bucket r) (key r) (byteOffset r) byteOffsetTop s of
            (Inl e, s') \<Rightarrow> Settle (Throw e, Finished, r, s')
          | (Inr file, s') \<Rightarrow>
              (let r1 = r\<lparr>byteOffset := byteOffsetTop + 1\<rparr>
               in (case file of
                     None \<Rightarrow> Settle (Return (partial r1), Finished, r1, s')
                   | Some body \<Rightarrow>
                       (case readStream body of
                          Inl e \<Rightarrow> Settle (Throw e, Finished, r1, s')
                        | Inr text \<Rightarrow>
                            scanLines lineDelimiter (partial r1 @ text)
                              (r1\<lparr>partial := []\<rparr>) s')))))"

lemma fetchChunk_Continue:
  assumes "fetchChunk client d r s = Continue (r', s')"
    and "byteOffset r < size_bytes r"
  shows "size_bytes r' = size_bytes r \<and> byteOffset r < byteOffset r'"
  using assms
  by (auto simp: fetchChunk_def scanLines_def Let_def
      split: prod.splits sum.splits option.splits if_splits)

text \<open>The outer loop, from its test \<^verbatim>\<open>while (this.byteOffset < this.size)\<close>, and the
  final \<^verbatim>\<open>return this.partial\<close>.\<close>

function fetchLoop ::
  "('e, 's) s3 \<Rightarrow> utf16 \<Rightarrow> 'a reader_scheme \<Rightarrow> 's \<Rightarrow>
   'e step \<times> frame \<times> 'a reader_scheme \<times> 's" where
  "fetchLoop client lineDelimiter r s =
     (if byteOffset r < size_bytes r then
        (case fetchChunk client lineDelimiter r s of
           Continue (r', s') \<Rightarrow> fetchLoop client lineDelimiter r' s'
         | Settle out \<Rightarrow> out)
      else (Return (partial r), Finished, r, s))"
  by pat_completeness auto
termination
  apply (relation "measure (\<lambda>(client, d, r, s). size_bytes r - byteOffset r)")
   apply simp
  apply (auto dest!: fetchChunk_Continue)
  done

declare fetchLoop.simps [simp del]

text \<open>
  One call of \<^verbatim>\<open>next()\<close> on the generator of \<^verbatim>\<open>s3-line-reader.ts\<close>: the body runs
  from the place where it is suspended to the next \<^verbatim>\<open>yield\<close>, \<^verbatim>\<open>return\<close> or error.
\<close>

definition gen_next ::
  "('e, 's) s3 \<Rightarrow> frame \<times> 'a reader_scheme \<times> 's \<Rightarrow>
   'e step \<times> frame \<times> 'a reader_scheme \<times> 's" where
  "gen_next client cfg =
     (case cfg of (fr, r, s) \<Rightarrow>
        (case fr of
           Start lineDelimiter \<Rightarrow>
             (case headObject client (bucket r) (key r) s of
                (Inl e, s') \<Rightarrow> (Throw e, Finished, r, s')
              | (Inr contentLength, s') \<Rightarrow>
                  fetchLoop client lineDelimiter
                    (r\<lparr>size_bytes := (case contentLength of None \<Rightarrow> 0 | Some n \<Rightarrow> n)\<rparr>) s')
         | Suspended lineDelimiter data nextNewline \<Rightarrow>
             (case scanLines lineDelimiter
                     (substringFrom data (nextNewline + length lineDelimiter)) r s of
                Continue (r', s') \<Rightarrow> fetchLoop client lineDelimiter r' s'
              | Settle out \<Rightarrow> out)
         | Finished \<Rightarrow> (Done, Finished, r, s)))"

text \<open>
  The consumer of the documentation (\<^verbatim>\<open>do { line = await it.next() } while (!line.done)\<close>):
  it calls \<open>next\<close> until the generator is done or fails, and collects the yielded
  records, the last settlement and the final state. \<open>None\<close> stands for a loop that never
  ends.
\<close>

partial_function (option) drain ::
  "('c \<Rightarrow> 'e step \<times> 'c) \<Rightarrow> 'c \<Rightarrow> (utf16 list \<times> 'e step \<times> 'c) option" where
  "drain nxt cfg =
     (case nxt cfg of
        (Yield line, cfg') \<Rightarrow>
          Option.bind (drain nxt cfg') (\<lambda>(ls, out). Some (line # ls, out))
      | (out, cfg') \<Rightarrow> Some ([], out, cfg'))"

declare drain.simps [code]

text \<open>\<^verbatim>\<open>getLines(lineDelimiter)\<close> of \<^verbatim>\<open>s3-line-reader.ts\<close> creates a new generator
  object, suspended at its start.\<close>

definition getLines :: "utf16 option \<Rightarrow> frame" where
  "getLines lineDelimiter = Start (case lineDelimiter of None \<Rightarrow> [0x0A] | Some d \<Rightarrow> d)"

text \<open>A consumer that reads a new reader to the end, as the tests do
  (\<^verbatim>\<open>new S3LineReader('some-bucket', 'some-key', ...)\<close>).\<close>

definition readObject ::
  "('e, 's) s3 \<Rightarrow> 's \<Rightarrow> nat option \<Rightarrow> utf16 option \<Rightarrow>
   (utf16 list \<times> 'e step \<times> frame \<times> reader \<times> 's) option" where
  "readObject client s bufSize lineDelimiter =
     drain (gen_next client)
       (getLines lineDelimiter, S3LineReader ''some-bucket'' ''some-key'' bufSize, s)"


section \<open>The text that the reader receives\<close>

text \<open>
  The reader never sees the object as a whole: it sees the chunks of the ranges it
  requests, each decoded on its own. \<open>textFrom\<close> is the text still to come when the
  cursor is at \<open>off\<close>, with the ranges of the fetch loop; \<open>textOfChunks\<close> is the text of
  the next \<open>k\<close> chunks only; \<open>receivedText\<close> is the text of a whole pass of a new reader.
\<close>

function textFrom :: "string \<Rightarrow> nat \<Rightarrow> nat \<Rightarrow> utf16" where
  "textFrom content bs off =
     (if off < length content then
        toString (subarray content off
                    ((if off + bs > length content then length content else off + bs) + 1))
        @ textFrom content bs
            ((if off + bs > length content then length content else off + bs) + 1)
      else [])"
  by pat_completeness auto
termination
  by (relation "measure (\<lambda>(content, bs, off). length content - off)") auto

declare textFrom.simps [simp del]

primrec textOfChunks :: "string \<Rightarrow> nat \<Rightarrow> nat \<Rightarrow> nat \<Rightarrow> utf16" where
  "textOfChunks content bs off 0 = []"
| "textOfChunks content bs off (Suc k) =
     (if off < length content then
        toString (subarray content off
                    ((if off + bs > length content then length content else off + bs) + 1))
        @ textOfChunks content bs
            ((if off + bs > length content then length content else off + bs) + 1) k
      else [])"

definition receivedText :: "string \<Rightarrow> nat option \<Rightarrow> utf16" where
  "receivedText content bufSize =
     textFrom content (case bufSize of None \<Rightarrow> 1024 * 128 | Some n \<Rightarrow> n) 0"

section \<open>The reader of \<^verbatim>\<open>part_001\<close>\<close>

text \<open>
  The variant \<^verbatim>\<open>part_001\<close> has the same fields, and its constructor sets them as
  \<open>S3LineReader\<close> does (the buffer size is its third argument). Its generator does not
  join the carried-over text with the new chunk before the scan: it scans the chunk
  alone, and appends to \<^verbatim>\<open>this.partial\<close> in place.

  The inner loop, from its test \<^verbatim>\<open>while (data.length)\<close>; the recursive call is the
  \<^verbatim>\<open>continue\<close>.
\<close>

function scanLines_001 ::
  "utf16 \<Rightarrow> utf16 \<Rightarrow> 'a reader_scheme \<Rightarrow> 's \<Rightarrow>
   ('a reader_scheme \<times> 's, 'e step \<times> frame \<times> 'a reader_scheme \<times> 's) control" where
  "scanLines_001 lineDelimiter data r s =
     (if length data = 0 then Continue (r, s)
      else (case indexOf data lineDelimiter of
              None \<Rightarrow>
                (let r1 = r\<lparr>partial := partial r @ data\<rparr>
                 in if indexOf (partial r1) lineDelimiter \<noteq> None
                    then scanLines_001 lineDelimiter (partial r1) (r1\<lparr>partial := []\<rparr>) s
                    else Continue (r1, s))
            | Some nextNewline \<Rightarrow>
                (let nextLine = substring data 0 nextNewline
                 in if partial r \<noteq> []
                    then Settle (Yield (partial r @ nextLine),
                                 Suspended lineDelimiter data nextNewline, r\<lparr>partial := []\<rparr>, s)
                    else Settle (Yield nextLine,
                                 Suspended lineDelimiter data nextNewline, r, s))))"
  by pat_completeness auto
termination
  apply (relation "measure (\<lambda>(d, data, r, s). if indexOf data d = None then 1 else 0)")
   apply simp
  apply auto
  done

declare scanLines_001.simps [simp del]

text \<open>One pass through the body of the outer loop of \<^verbatim>\<open>part_001\<close>.\<close>

definition fetchChunk_001 ::
  "('e, 's) s3 \<Rightarrow> utf16 \<Rightarrow> 'a reader_scheme \<Rightarrow> 's \<Rightarrow>
   ('a reader_scheme \<times> 's, 'e step \<times> frame \<times> 'a reader_scheme \<times> 's) control" where
  "fetchChunk_001 client lineDelimiter r s =
     (let byteOffsetTop = (if byteOffset r + bufferSize r > size_bytes r then size_bytes r
                           else byteOffset r + bufferSize r)
      in (case send client (bucket r) (key r) (byteOffset r) byteOffsetTop s of
            (Inl e, s') \<Rightarrow> Settle (Throw e, Finished, r, s')
          | (Inr file, s') \<Rightarrow>
              (let r1 = r\<lparr>byteOffset := byteOffsetTop + 1\<rparr>
               in (case file of
                     None \<Rightarrow> Settle (Return (partial r1), Finished, r1, s')
                   | Some body \<Rightarrow>
                       (case readStream body of
                          Inl e \<Rightarrow> Settle (Throw e, Finished, r1, s')
                        | Inr data \<Rightarrow> scanLines_001 lineDelimiter data r1 s')))))"

lemma scanLines_001_closed:
  "scanLines_001 d data r s =
     (if data = [] then Continue (r, s)
      else (case indexOf data d of
              None \<Rightarrow>
                (case indexOf (partial r @ data) d of
                   None \<Rightarrow> Continue (r\<lparr>partial := partial r @ data\<rparr>, s)
                 | Some j \<Rightarrow>
                     Settle (Yield (take j (partial r @ data)),
                             Suspended d (partial r @ data) j, r\<lparr>partial := []\<rparr>, s))
            | Some i \<Rightarrow>
                (if partial r \<noteq> []
                 then Settle (Yield (partial r @ take i data), Suspended d data i,
                              r\<lparr>partial := []\<rparr>, s)
                 else Settle (Yield (take i data), Suspended d data i, r, s))))"
proof (cases "data \<noteq> [] \<and> indexOf data d = None \<and> indexOf (partial r @ data) d \<noteq> None")
  case False
  then show ?thesis
    by (subst scanLines_001.simps) (auto simp: Let_def substring_def split: option.splits)
next
  case True
  then obtain j where j: "indexOf (partial r @ data) d = Some j" by auto
  have "scanLines_001 d data r s
        = scanLines_001 d (partial r @ data) (r\<lparr>partial := []\<rparr>) s"
    using True by (subst scanLines_001.simps) (auto simp: Let_def)
  also have "\<dots> = Settle (Yield (take j (partial r @ data)),
                            Suspended d (partial r @ data) j, r\<lparr>partial := []\<rparr>, s)"
    using True j by (subst scanLines_001.simps) (auto simp: Let_def substring_def)
  finally show ?thesis using True j by simp
qed

lemma scanLines_001_Continue:
  "scanLines_001 d data r s = Continue (r', s') \<Longrightarrow>
   size_bytes r' = size_bytes r \<and> byteOffset r' = byteOffset r"
  by (auto simp: scanLines_001_closed split: if_splits option.splits)

lemma fetchChunk_001_Continue:
  assumes "fetchChunk_001 client d r s = Continue (r', s')"
    and "byteOffset r < size_bytes r"
  shows "size_bytes r' = size_bytes r \<and> byteOffset r < byteOffset r'"
  using assms
  by (auto simp: fetchChunk_001_def Let_def
      split: prod.splits sum.splits option.splits if_splits dest!: scanLines_001_Continue)

function fetchLoop_001 ::
  "('e, 's) s3 \<Rightarrow> utf16 \<Rightarrow> 'a reader_scheme \<Rightarrow> 's \<Rightarrow>
   'e step \<times> frame \<times> 'a reader_scheme \<times> 's" where
  "fetchLoop_001 client lineDelimiter r s =
     (if byteOffset r < size_bytes r then
        (case fetchChunk_001 client lineDelimiter r s of
           Continue (r', s') \<Rightarrow> fetchLoop_001 client lineDelimiter r' s'
         | Settle out \<Rightarrow> out)
      else (Return (partial r), Finished, r, s))"
  by pat_completeness auto
termination
  apply (relation "measure (\<lambda>(client, d, r, s). size_bytes r - byteOffset r)")
   apply simp
  apply (auto dest!: fetchChunk_001_Continue)
  done

declare fetchLoop_001.simps [simp del]

text \<open>One call of \<^verbatim>\<open>next()\<close> on the generator of \<^verbatim>\<open>part_001\<close>.\<close>

definition gen_next_001 ::
  "('e, 's) s3 \<Rightarrow> frame \<times> 'a reader_scheme \<times> 's \<Rightarrow>
   'e step \<times> frame \<times> 'a reader_scheme \<times> 's" where
  "gen_next_001 client cfg =
     (case cfg of (fr, r, s) \<Rightarrow>
        (case fr of
           Start lineDelimiter \<Rightarrow>
             (case headObject client (bucket r) (key r) s of
                (Inl e, s') \<Rightarrow> (Throw e, Finished, r, s')
              | (Inr contentLength, s') \<Rightarrow>
                  fetchLoop_001 client lineDelimiter
                    (r\<lparr>size_bytes := (case contentLength of None \<Rightarrow> 0 | Some n \<Rightarrow> n)\<rparr>) s')
         | Suspended lineDelimiter data nextNewline \<Rightarrow>
             (case scanLines_001 lineDelimiter
                     (substringFrom data (nextNewline + length lineDelimiter)) r s of
                Continue (r', s') \<Rightarrow> fetchLoop_001 client lineDelimiter r' s'
              | Settle out \<Rightarrow> out)
         | Finished \<Rightarrow> (Done, Finished, r, s)))"

text \<open>A consumer that reads a new reader of \<^verbatim>\<open>part_001\<close> to the end.\<close>

definition readObject_001 ::
  "('e, 's) s3 \<Rightarrow> 's \<Rightarrow> nat option \<Rightarrow> utf16 option \<Rightarrow>
   (utf16 list \<times> 'e step \<times> frame \<times> reader \<times> 's) option" where
  "readObject_001 client s bufSize lineDelimiter =
     drain (gen_next_001 client)
       (getLines lineDelimiter, S3LineReader ''some-bucket'' ''some-key'' bufSize, s)"

section \<open>The reader of \<^verbatim>\<open>part_000\<close> and generator objects\<close>

text \<open>
  The constructor of \<^verbatim>\<open>part_000\<close> takes an object of options. The option
  \<^verbatim>\<open>s3Config\<close> is handed to the client and plays no part in the reader.
\<close>

record config =
  cfg_bufferSize :: "nat option"
  cfg_lineDelimiter :: "utf16 option"

text \<open>The reader of \<^verbatim>\<open>part_000\<close> has two more fields: the generator it has
  created, if any, and the delimiter.\<close>

record reader_000 = reader +
  generator :: "nat option"
  lineDelimiter :: utf16

text \<open>\<^verbatim>\<open>config.lineDelimiter || this.lineDelimiter\<close> and
  \<^verbatim>\<open>config.bufferSize || this.bufferSize\<close>: a missing option, an empty delimiter and a
  buffer size of 0 are replaced by the defaults.\<close>

definition S3LineReader_000 :: "string \<Rightarrow> string \<Rightarrow> config \<Rightarrow> reader_000" where
  "S3LineReader_000 b k config =
     \<lparr> bucket = b, key = k,
       bufferSize = (case cfg_bufferSize config of
                       None \<Rightarrow> 1024 * 128
                     | Some n \<Rightarrow> if n = 0 then 1024 * 128 else n),
       byteOffset = 0, partial = [], size_bytes = 0,
       generator = None,
       lineDelimiter = (case cfg_lineDelimiter config of
                          None \<Rightarrow> [0x0A]
                        | Some d \<Rightarrow> if d = [] then [0x0A] else d) \<rparr>"

text \<open>
  \<^verbatim>\<open>getLinesGenerator\<close> has the body of \<^verbatim>\<open>getLines\<close> of \<^verbatim>\<open>s3-line-reader.ts\<close>, with
  the field \<^verbatim>\<open>this.lineDelimiter\<close> in the place of the argument.
\<close>

definition getLinesGenerator :: "reader_000 \<Rightarrow> frame" where
  "getLinesGenerator r = Start (lineDelimiter r)"

definition gen_next_000 ::
  "('e, 's) s3 \<Rightarrow> frame \<times> reader_000 \<times> 's \<Rightarrow> 'e step \<times> frame \<times> reader_000 \<times> 's" where
  "gen_next_000 client cfg =
     (case cfg of (fr, r, s) \<Rightarrow>
        gen_next client
          ((case fr of
              Start _ \<Rightarrow> Start (lineDelimiter r)
            | Suspended _ data nextNewline \<Rightarrow> Suspended (lineDelimiter r) data nextNewline
            | Finished \<Rightarrow> Finished), r, s))"

text \<open>
  Generator objects have an identity: a reference is the index of the object in the
  list of the generator objects created so far. \<^verbatim>\<open>getLines\<close> of \<^verbatim>\<open>part_000\<close> creates
  the generator at the first call, keeps the reference in the reader and returns it.
\<close>

definition getLines_000 :: "reader_000 \<times> frame list \<Rightarrow> nat \<times> reader_000 \<times> frame list" where
  "getLines_000 st =
     (case st of (r, gens) \<Rightarrow>
        (case generator r of
           None \<Rightarrow> (length gens, r\<lparr>generator := Some (length gens)\<rparr>,
                     gens @ [getLinesGenerator r])
         | Some g \<Rightarrow> (g, r, gens)))"

text \<open>\<^verbatim>\<open>getLines\<close> of \<^verbatim>\<open>s3-line-reader.ts\<close> (and of \<^verbatim>\<open>part_001\<close>) is itself the
  generator function: every call creates a generator object.\<close>

definition getLines_obj ::
  "utf16 option \<Rightarrow> 'a reader_scheme \<times> frame list \<Rightarrow> nat \<times> 'a reader_scheme \<times> frame list" where
  "getLines_obj delimiter st =
     (case st of (r, gens) \<Rightarrow> (length gens, r, gens @ [getLines delimiter]))"

text \<open>\<^verbatim>\<open>next()\<close> on the generator object \<open>g\<close>, which shares the fields of the reader with
  every other generator of that reader. A reference always denotes an object of the
  list; for any other number nothing happens.\<close>

definition next_on ::
  "(frame \<times> 'r \<times> 's \<Rightarrow> 'e step \<times> frame \<times> 'r \<times> 's) \<Rightarrow> nat \<Rightarrow>
   'r \<times> frame list \<times> 's \<Rightarrow> 'e step \<times> 'r \<times> frame list \<times> 's" where
  "next_on nxt g st =
     (case st of (r, gens, s) \<Rightarrow>
        (if g < length gens then
           (case nxt (gens ! g, r, s) of
              (out, fr', r', s') \<Rightarrow> (out, r', gens[g := fr'], s'))
         else (Done, r, gens, s)))"

section \<open>States between the calls\<close>

text \<open>The state after \<open>k\<close> calls of \<^verbatim>\<open>next()\<close>, and the cursor and the size of the
  object in a state.\<close>

primrec after_calls :: "('c \<Rightarrow> 'e step \<times> 'c) \<Rightarrow> nat \<Rightarrow> 'c \<Rightarrow> 'c" where
  "after_calls nxt 0 cfg = cfg"
| "after_calls nxt (Suc k) cfg = snd (nxt (after_calls nxt k cfg))"

definition cursor_of :: "frame \<times> 'a reader_scheme \<times> 's \<Rightarrow> nat" where
  "cursor_of cfg = (case cfg of (fr, r, s) \<Rightarrow> byteOffset r)"

definition total_of :: "frame \<times> 'a reader_scheme \<times> 's \<Rightarrow> nat" where
  "total_of cfg = (case cfg of (fr, r, s) \<Rightarrow> size_bytes r)"

text \<open>The bound on the cursor: it is 0 before the generator has started, and at most
  one beyond the size of the object afterwards.\<close>

definition cursor_inv :: "frame \<times> 'a reader_scheme \<times> 's \<Rightarrow> bool" where
  "cursor_inv cfg =
     (case cfg of (fr, r, s) \<Rightarrow>
        (case fr of Start d \<Rightarrow> byteOffset r = 0 | _ \<Rightarrow> byteOffset r \<le> size_bytes r + 1))"

section \<open>The decoder\<close>

lemma utf8_ascii: "\<forall>b \<in> set bs. b < 0x80 \<Longrightarrow> utf8 bs = bs"
  by (induction bs) simp_all

lemma toString_ascii: "ascii buffer \<Longrightarrow> toString buffer = map of_char buffer"
  unfolding toString_def ascii_def by (rule utf8_ascii) simp

lemma if_nonempty:
  "(P \<Longrightarrow> x \<noteq> []) \<Longrightarrow> (\<not> P \<Longrightarrow> y \<noteq> []) \<Longrightarrow> (if P then x else y) \<noteq> []"
  by simp

lemma case_nonempty:
  "(bs = [] \<Longrightarrow> x \<noteq> []) \<Longrightarrow> (\<And>c r. bs = c # r \<Longrightarrow> f c r \<noteq> []) \<Longrightarrow>
   (case bs of [] \<Rightarrow> x | c # r \<Rightarrow> f c r) \<noteq> []"
  by (cases bs) simp_all

lemma utf8_nonempty: "utf8 (b # bs) \<noteq> []"
  by (subst utf8.simps)
     (intro if_nonempty case_nonempty;
      simp only: surrogates_def append_Cons list.distinct not_False_eq_True)

lemma toString_nonempty: "buffer \<noteq> [] \<Longrightarrow> toString buffer \<noteq> []"
  by (cases buffer) (simp_all add: toString_def utf8_nonempty del: utf8.simps)

lemma if_length:
  "(P \<Longrightarrow> length x \<le> n) \<Longrightarrow> (\<not> P \<Longrightarrow> length y \<le> n) \<Longrightarrow> length (if P then x else y) \<le> n"
  by simp

lemma case_length:
  "(bs = [] \<Longrightarrow> length x \<le> n) \<Longrightarrow> (\<And>c r. bs = c # r \<Longrightarrow> length (f c r) \<le> n) \<Longrightarrow>
   length (case bs of [] \<Rightarrow> x | c # r \<Rightarrow> f c r) \<le> n"
  by (cases bs) simp_all

lemma utf8_length: "length (utf8 bs) \<le> length bs"
proof (induction "length bs" arbitrary: bs rule: less_induct)
  case less
  show ?case
  proof (cases bs)
    case Nil
    then show ?thesis by simp
  next
    case (Cons b r)
    have IH: "length (utf8 ys) \<le> length ys" if "length ys \<le> length r" for ys
      using that Cons by (intro less.hyps) simp
    have 1: "length (x # utf8 r) \<le> length (b # r)" for x
      using IH [of r] by simp
    have 2: "length [x] \<le> length (b # r)" for x :: nat
      by simp
    have 3: "r = c1 # r1 \<Longrightarrow> length (x # utf8 r1) \<le> length (b # r)" for x c1 r1
      using IH [of r1] by simp
    have 4: "r = c1 # r1 \<Longrightarrow> r1 = c2 # r2 \<Longrightarrow> length (x # utf8 r2) \<le> length (b # r)"
      for x c1 r1 c2 r2
      using IH [of r2] by simp
    have 5: "r = c1 # r1 \<Longrightarrow> r1 = c2 # r2 \<Longrightarrow> r2 = c3 # r3 \<Longrightarrow>
             length (surrogates x @ utf8 r3) \<le> length (b # r)"
      for x c1 r1 c2 r2 c3 r3
      using IH [of r3] by (simp add: surrogates_def)
    have 6: "r = c1 # r1 \<Longrightarrow> r1 = c2 # r2 \<Longrightarrow> length (x # utf8 r2) \<le> length (b # r)"
      for x c1 r1 c2 r2
      using IH [of r2] by simp
    have "length (utf8 (b # r)) \<le> length (b # r)"
      by (subst utf8.simps) (intro if_length case_length; (rule 1 2 | erule 3 | erule 4 5 6, assumption+))
    with Cons show ?thesis by simp
  qed
qed

lemma toString_length: "length (toString buffer) \<le> length buffer"
  using utf8_length [of "map of_char buffer"] by (simp add: toString_def)

lemma toString_Nil [simp]: "toString [] = []"
  by (simp add: toString_def)

lemma ascii_take_drop: "ascii buffer \<Longrightarrow> ascii (take n (drop m buffer))"
  unfolding ascii_def by (meson in_set_dropD in_set_takeD)

lemma ascii_drop: "ascii buffer \<Longrightarrow> ascii (drop m buffer)"
  unfolding ascii_def by (meson in_set_dropD)

section \<open>The text of the chunks\<close>

lemma subarray_drop:
  assumes "off \<le> e"
  shows "subarray content off e @ drop e content = drop off content"
proof -
  from assms have "drop e content = drop (e - off) (drop off content)" by simp
  then show ?thesis
    unfolding subarray_def by (metis append_take_drop_id)
qed

lemma toString_ascii_append:
  assumes "ascii (a @ b)"
  shows "toString (a @ b) = toString a @ toString b"
proof -
  from assms have "ascii a" "ascii b" by (auto simp: ascii_def)
  with assms show ?thesis by (simp add: toString_ascii)
qed

lemma textFrom_ascii:
  "ascii content \<Longrightarrow> textFrom content bs off = toString (drop off content)"
proof (induction content bs off rule: textFrom.induct)
  case (1 content bs off)
  show ?case
  proof (cases "off < length content")
    case False
    then show ?thesis by (simp add: textFrom.simps)
  next
    case True
    let ?e = "(if off + bs > length content then length content else off + bs) + 1"
    have "off \<le> ?e" using True by simp
    then have split: "subarray content off ?e @ drop ?e content = drop off content"
      by (rule subarray_drop)
    have "ascii (drop off content)" using "1.prems" by (rule ascii_drop)
    then have "toString (drop off content)
               = toString (subarray content off ?e) @ toString (drop ?e content)"
      unfolding split [symmetric] by (rule toString_ascii_append)
    moreover have "textFrom content bs ?e = toString (drop ?e content)"
      using "1.IH" [OF True "1.prems"] .
    moreover have "textFrom content bs off
                   = toString (subarray content off ?e) @ textFrom content bs ?e"
      using True by (subst textFrom.simps) simp
    ultimately show ?thesis by simp
  qed
qed

lemma receivedText_ascii: "ascii content \<Longrightarrow> receivedText content bufSize = toString content"
  by (simp add: receivedText_def textFrom_ascii)

lemma textFrom_end:
  "\<not> off < length content \<Longrightarrow> textFrom content bs off = []"
  by (simp add: textFrom.simps)


lemma textFrom_chunks:
  "\<exists>rest. textFrom content bs off = textOfChunks content bs off k @ rest"
proof (induction k arbitrary: off)
  case 0
  show ?case by simp
next
  case (Suc k)
  show ?case
  proof (cases "off < length content")
    case False
    then show ?thesis by (simp add: textFrom.simps)
  next
    case True
    let ?e = "(if off + bs > length content then length content else off + bs) + 1"
    from Suc [of ?e] obtain rest where
      "textFrom content bs ?e = textOfChunks content bs ?e k @ rest" by blast
    then have "textFrom content bs off = textOfChunks content bs off (Suc k) @ rest"
      using True by (subst textFrom.simps) simp
    then show ?thesis by blast
  qed
qed

section \<open>Occurrences of the delimiter\<close>

lemma indexOf_empty_needle: "indexOf s [] = Some 0"
  by (cases s) simp_all

lemma indexOf_Some_bound: "indexOf s d = Some i \<Longrightarrow> i + length d \<le> length s"
proof (induction s arbitrary: i)
  case Nil
  then show ?case by (simp split: if_splits)
next
  case (Cons c cs)
  then show ?case
    by (auto split: if_splits dest: prefix_length_le)
qed


lemma indexOf_append:
  "indexOf x d = Some i \<Longrightarrow> indexOf (x @ y) d = Some i"
proof (induction x arbitrary: i)
  case Nil
  then show ?case by (simp add: indexOf_empty_needle split: if_splits)
next
  case (Cons c cs)
  show ?case
  proof (cases "prefix d (c # cs)")
    case True
    then have "prefix d ((c # cs) @ y)" by (rule prefix_prefix)
    with True Cons.prems show ?thesis by simp
  next
    case False
    with Cons.prems obtain j where j: "indexOf cs d = Some j" "i = Suc j" by auto
    from indexOf_Some_bound [OF j(1)] have len: "length d \<le> length (c # cs)" by simp
    have "\<not> prefix d ((c # cs) @ y)"
    proof
      assume "prefix d ((c # cs) @ y)"
      then have "prefix d (c # cs)" using len
        by (metis prefix_append prefix_length_prefix prefix_order.order_refl prefix_length_le append_eq_conv_conj prefix_def take_all_iff)
      with False show False by simp
    qed
    with Cons.IH [OF j(1)] j(2) show ?thesis by simp
  qed
qed



text \<open>
  Splitting a whole string at once: the records before each occurrence of the
  delimiter, found from left to right, and the rest after the last one. It is the
  reference against which the chunked readers are compared.
\<close>

function splitAll :: "'a list \<Rightarrow> 'a list \<Rightarrow> 'a list list \<times> 'a list" where
  "splitAll d s =
     (if d = [] then ([], s)
      else (case indexOf s d of
              None \<Rightarrow> ([], s)
            | Some i \<Rightarrow> (case splitAll d (drop (i + length d) s) of
                           (rs, t) \<Rightarrow> (take i s # rs, t))))"
  by pat_completeness auto
termination
  apply (relation "measure (\<lambda>(d, s). length s)")
   apply simp
  apply (auto dest!: indexOf_Some_bound simp: neq_Nil_conv)
  done

declare splitAll.simps [simp del]

lemma splitAll_None: "d \<noteq> [] \<Longrightarrow> indexOf s d = None \<Longrightarrow> splitAll d s = ([], s)"
  by (subst splitAll.simps) simp

lemma splitAll_Some:
  "d \<noteq> [] \<Longrightarrow> indexOf s d = Some i \<Longrightarrow>
   splitAll d s = (take i s # fst (splitAll d (drop (i + length d) s)),
                   snd (splitAll d (drop (i + length d) s)))"
  by (subst splitAll.simps) (simp split: prod.splits)





section \<open>The reader of \<^verbatim>\<open>s3-line-reader.ts\<close> over the mocked client\<close>

lemma send_NoFault [simp]:
  "send (s3Mock content NoFault) b k lo hi n =
     (Inr (Some (Readable [subarray content lo (hi + 1)] None)), Suc n)"
  by (simp add: s3Mock_def)

lemma headObject_NoFault [simp]:
  "headObject (s3Mock content NoFault) b k n = (Inr (Some (length content)), n)"
  by (simp add: s3Mock_def)

lemma readStream_single [simp]: "readStream (Readable [c] None) = Inr (toString c)"
  by (simp add: readStream_def)

lemma readStream_error [simp]: "readStream (Readable cs (Some e)) = Inl e"
  by (simp add: readStream_def)

definition byteOffsetTop :: "'a reader_scheme \<Rightarrow> nat" where
  "byteOffsetTop r = (if byteOffset r + bufferSize r > size_bytes r then size_bytes r
                      else byteOffset r + bufferSize r)"

lemma fetchChunk_NoFault:
  "fetchChunk (s3Mock content NoFault) d r n =
     scanLines d (partial r @ toString (subarray content (byteOffset r) (byteOffsetTop r + 1)))
       (r\<lparr>byteOffset := byteOffsetTop r + 1, partial := []\<rparr>) (Suc n)"
  by (simp add: fetchChunk_def byteOffsetTop_def Let_def)

lemma textFrom_step:
  assumes "byteOffset r < size_bytes r" and "size_bytes r = length content"
  shows "textFrom content (bufferSize r) (byteOffset r)
         = toString (subarray content (byteOffset r) (byteOffsetTop r + 1))
           @ textFrom content (bufferSize r) (byteOffsetTop r + 1)"
  using assms by (subst textFrom.simps) (simp add: byteOffsetTop_def)

lemma chunk_nonempty:
  assumes "byteOffset r < size_bytes r" "size_bytes r = length content"
  shows "toString (subarray content (byteOffset r) (byteOffsetTop r + 1)) \<noteq> []"
  using assms by (intro toString_nonempty) (simp add: subarray_def byteOffsetTop_def)

definition settles_as ::
  "string \<Rightarrow> utf16 \<Rightarrow> nat \<Rightarrow> utf16 \<Rightarrow> 'e step \<times> frame \<times> 'a reader_scheme \<times> nat \<Rightarrow> bool" where
  "settles_as content d bs w res =
     (case indexOf w d of
        None \<Rightarrow> (\<exists>r' n'. res = (Return w, Finished, r', n'))
      | Some j \<Rightarrow> (\<exists>x r' n'. res = (Yield (take j w), Suspended d x j, r', n') \<and>
                     indexOf x d = Some j \<and> x @ textFrom content bs (byteOffset r') = w \<and>
                     partial r' = [] \<and> size_bytes r' = length content \<and>
                     bufferSize r' = bs))"

lemma fetchLoop_NoFault:
  assumes "d \<noteq> []" and "size_bytes r = length content" and "indexOf (partial r) d = None"
  shows "settles_as content d (bufferSize r)
           (partial r @ textFrom content (bufferSize r) (byteOffset r))
           (fetchLoop (s3Mock content (NoFault :: 'e fault)) d r n)"
  using assms
proof (induction "size_bytes r - byteOffset r" arbitrary: r n rule: less_induct)
  case less
  let ?C = "s3Mock content (NoFault :: 'e fault)"
  let ?w = "partial r @ textFrom content (bufferSize r) (byteOffset r)"
  show ?case
  proof (cases "byteOffset r < size_bytes r")
    case False
    with less.prems have "?w = partial r" by (simp add: textFrom_end)
    then show ?thesis
      using False less.prems by (simp add: fetchLoop.simps settles_as_def)
  next
    case True
    let ?chunk = "toString (subarray content (byteOffset r) (byteOffsetTop r + 1))"
    let ?data = "partial r @ ?chunk"
    let ?r2 = "r\<lparr>byteOffset := byteOffsetTop r + 1, partial := []\<rparr>"
    have w: "?w = ?data @ textFrom content (bufferSize r) (byteOffsetTop r + 1)"
      using textFrom_step [OF True less.prems(2)] by simp
    have ne: "?data \<noteq> []"
      using chunk_nonempty [OF True less.prems(2)] by simp
    show ?thesis
    proof (cases "indexOf ?data d")
      case None
      let ?r3 = "?r2\<lparr>partial := ?data\<rparr>"
      have step: "fetchLoop ?C d r n = fetchLoop ?C d ?r3 (Suc n)"
        using True None ne
        by (subst fetchLoop.simps) (simp add: fetchChunk_NoFault scanLines_def)
      have "size_bytes ?r3 - byteOffset ?r3 < size_bytes r - byteOffset r"
        using True by (auto simp: byteOffsetTop_def)
      from less.hyps [OF this, of "Suc n"] less.prems None
      have "settles_as content d (bufferSize r)
              (?data @ textFrom content (bufferSize r) (byteOffsetTop r + 1))
              (fetchLoop ?C d ?r3 (Suc n))" by simp
      with step w show ?thesis by simp
    next
      case (Some j)
      have res: "fetchLoop ?C d r n = (Yield (take j ?data), Suspended d ?data j, ?r2, Suc n)"
        using True Some ne
        by (subst fetchLoop.simps) (auto simp: fetchChunk_NoFault scanLines_def substring_def)
      have A: "indexOf ?w d = Some j"
        unfolding w using Some by (rule indexOf_append)
      have "take j ?w = take j ?data"
        using indexOf_Some_bound [OF Some] unfolding w by simp
      with res have res': "fetchLoop ?C d r n
          = (Yield (take j ?w), Suspended d ?data j, ?r2, Suc n)"
        by (simp only:)
      have F: "partial ?r2 = []" "size_bytes ?r2 = length content"
        "bufferSize ?r2 = bufferSize r" "byteOffset ?r2 = byteOffsetTop r + 1"
        using less.prems(2) by simp_all
      have D: "?data @ textFrom content (bufferSize r) (byteOffset ?r2) = ?w"
        unfolding F(4) by (rule w [symmetric])
      show ?thesis
        unfolding settles_as_def A option.case
        using res' Some F(1-3) D by blast
    qed
  qed
qed

lemma gen_next_Suspended_NoFault:
  assumes "d \<noteq> []" and "size_bytes r = length content" and "partial r = []"
  shows "settles_as content d (bufferSize r)
           (drop (i + length d) x @ textFrom content (bufferSize r) (byteOffset r))
           (gen_next (s3Mock content (NoFault :: 'e fault)) (Suspended d x i, r, n))"
proof -
  let ?C = "s3Mock content (NoFault :: 'e fault)"
  let ?p = "drop (i + length d) x"
  let ?w = "?p @ textFrom content (bufferSize r) (byteOffset r)"
  show ?thesis
  proof (cases "indexOf ?p d")
    case None
    have "r\<lparr>partial := partial r\<rparr> = r" by simp
    with assms(3) have idem: "r\<lparr>partial := []\<rparr> = r" by simp
    have "gen_next ?C (Suspended d x i, r, n) = fetchLoop ?C d (r\<lparr>partial := ?p\<rparr>) n"
      using None idem
      by (cases "?p = []") (simp_all add: gen_next_def scanLines_def substringFrom_def)
    moreover have "settles_as content d (bufferSize r) ?w
                     (fetchLoop ?C d (r\<lparr>partial := ?p\<rparr>) n)"
      using fetchLoop_NoFault [of d "r\<lparr>partial := ?p\<rparr>" content n] assms None by simp
    ultimately show ?thesis by simp
  next
    case (Some j)
    from Some assms(1) have "?p \<noteq> []" by auto
    then have res: "gen_next ?C (Suspended d x i, r, n)
                    = (Yield (take j ?p), Suspended d ?p j, r, n)"
      using Some by (simp add: gen_next_def scanLines_def substringFrom_def substring_def)
    have A: "indexOf ?w d = Some j"
      using Some by (rule indexOf_append)
    have "take j ?w = take j ?p"
      using indexOf_Some_bound [OF Some] by simp
    with res have res': "gen_next ?C (Suspended d x i, r, n)
                    = (Yield (take j ?w), Suspended d ?p j, r, n)"
      by (simp only:)
    show ?thesis
      unfolding settles_as_def A option.case
      using res' Some assms(2,3) by blast
  qed
qed

lemma gen_next_Start_NoFault:
  assumes "d \<noteq> []" and "indexOf (partial r) d = None"
  shows "settles_as content d (bufferSize r)
           (partial r @ textFrom content (bufferSize r) (byteOffset r))
           (gen_next (s3Mock content (NoFault :: 'e fault)) (Start d, r, n))"
  using fetchLoop_NoFault [of d "r\<lparr>size_bytes := length content\<rparr>" content n] assms
  by (simp add: gen_next_def)

lemma drain_Return:
  "nxt cfg = (Return t, cfg') \<Longrightarrow> drain nxt cfg = Some ([], Return t, cfg')"
  by (subst drain.simps) simp

lemma drain_Throw:
  "nxt cfg = (Throw e, cfg') \<Longrightarrow> drain nxt cfg = Some ([], Throw e, cfg')"
  by (subst drain.simps) simp

lemma drain_Yield:
  "nxt cfg = (Yield l, cfg') \<Longrightarrow> drain nxt cfg' = Some (ls, out) \<Longrightarrow>
   drain nxt cfg = Some (l # ls, out)"
  by (subst drain.simps) simp

lemma drain_settled:
  assumes "d \<noteq> []"
    and "settles_as content d bs w (gen_next (s3Mock content (NoFault :: 'e fault)) cfg)"
  shows "\<exists>r' n'. drain (gen_next (s3Mock content (NoFault :: 'e fault))) cfg
                = Some (fst (splitAll d w), Return (snd (splitAll d w)), Finished, r', n')"
  using assms(2)
proof (induction "length w" arbitrary: w cfg rule: less_induct)
  case less
  let ?nxt = "gen_next (s3Mock content (NoFault :: 'e fault))"
  show ?case
  proof (cases "indexOf w d")
    case None
    with less.prems obtain r' n' where "?nxt cfg = (Return w, Finished, r', n')"
      by (auto simp: settles_as_def)
    then have "drain ?nxt cfg = Some ([], Return w, Finished, r', n')"
      by (rule drain_Return)
    then show ?thesis
      using None assms(1) by (simp add: splitAll_None)
  next
    case (Some j)
    from less.prems have "\<exists>x r' n'. ?nxt cfg = (Yield (take j w), Suspended d x j, r', n') \<and>
                     indexOf x d = Some j \<and> x @ textFrom content bs (byteOffset r') = w \<and>
                     partial r' = [] \<and> size_bytes r' = length content \<and>
                     bufferSize r' = bs"
      unfolding settles_as_def Some option.case .
    then obtain x r' n' where
      nx: "?nxt cfg = (Yield (take j w), Suspended d x j, r', n')" and
      x: "indexOf x d = Some j" "x @ textFrom content bs (byteOffset r') = w" and
      r': "partial r' = []" "size_bytes r' = length content" "bufferSize r' = bs"
      by blast
    let ?w' = "drop (j + length d) x @ textFrom content bs (byteOffset r')"
    have w': "?w' = drop (j + length d) w"
      using indexOf_Some_bound [OF x(1)] x(2) by auto
    have "length ?w' < length w"
      unfolding w' using indexOf_Some_bound [OF Some] assms(1) by (cases d) auto
    moreover have "settles_as content d bs ?w' (?nxt (Suspended d x j, r', n'))"
      using gen_next_Suspended_NoFault [OF assms(1) r'(2) r'(1), of j x]
      unfolding r'(3) .
    ultimately obtain r'' n'' where
      "drain ?nxt (Suspended d x j, r', n')
       = Some (fst (splitAll d ?w'), Return (snd (splitAll d ?w')), Finished, r'', n'')"
      using less.hyps by blast
    with nx have "drain ?nxt cfg
       = Some (take j w # fst (splitAll d ?w'), Return (snd (splitAll d ?w')), Finished, r'', n'')"
      by (rule drain_Yield)
    then show ?thesis
      unfolding w' by (simp add: splitAll_Some [OF assms(1) Some])
  qed
qed

lemma readObject_NoFault:
  assumes "d \<noteq> []"
  shows "\<exists>r' n'. readObject (s3Mock content (NoFault :: 'e fault)) n bufSize (Some d)
               = Some (fst (splitAll d (receivedText content bufSize)),
                       Return (snd (splitAll d (receivedText content bufSize))),
                       Finished, r', n')"
proof -
  let ?r = "S3LineReader ''some-bucket'' ''some-key'' bufSize"
  have r: "partial ?r = []" "byteOffset ?r = 0"
    "bufferSize ?r = (case bufSize of None \<Rightarrow> 1024 * 128 | Some n \<Rightarrow> n)"
    by (simp_all add: S3LineReader_def)
  with gen_next_Start_NoFault [of d ?r content n] assms
  have "settles_as content d (bufferSize ?r) (receivedText content bufSize)
          (gen_next (s3Mock content (NoFault :: 'e fault)) (Start d, ?r, n))"
    by (simp add: receivedText_def)
  from drain_settled [OF assms this] show ?thesis
    by (simp add: readObject_def getLines_def)
qed

section \<open>Losslessness\<close>




section \<open>The final return value\<close>




section \<open>The cursor\<close>

lemma scanLines_fields:
  "scanLines d data r s = Continue (r', s') \<Longrightarrow>
     byteOffset r' = byteOffset r \<and> size_bytes r' = size_bytes r \<and>
     bufferSize r' = bufferSize r \<and> reader.more r' = reader.more r"
  "scanLines d data r s = Settle (out, fr, r', s') \<Longrightarrow>
     byteOffset r' = byteOffset r \<and> size_bytes r' = size_bytes r \<and>
     bufferSize r' = bufferSize r \<and> reader.more r' = reader.more r \<and>
     (\<exists>x i. fr = Suspended d x i)"
  by (auto simp: scanLines_def split: if_splits option.splits)

lemma fetchChunk_cursor:
  assumes "byteOffset r < size_bytes r"
  shows "fetchChunk client d r s = Continue (r', s') \<Longrightarrow>
           size_bytes r' = size_bytes r \<and> bufferSize r' = bufferSize r \<and>
           reader.more r' = reader.more r \<and>
           byteOffset r < byteOffset r' \<and> byteOffset r' \<le> size_bytes r + 1"
    and "fetchChunk client d r s = Settle (out, fr, r', s') \<Longrightarrow>
           size_bytes r' = size_bytes r \<and> bufferSize r' = bufferSize r \<and>
           reader.more r' = reader.more r \<and>
           byteOffset r \<le> byteOffset r' \<and> byteOffset r' \<le> size_bytes r + 1 \<and>
           (\<forall>dl. fr \<noteq> Start dl)"
  using assms
  by (auto simp: fetchChunk_def Let_def
      split: prod.splits sum.splits option.splits if_splits dest!: scanLines_fields)

lemma fetchLoop_cursor:
  assumes "fetchLoop client d r s = (out, fr, r', s')"
  shows "size_bytes r' = size_bytes r \<and> bufferSize r' = bufferSize r \<and>
         reader.more r' = reader.more r \<and>
         byteOffset r \<le> byteOffset r' \<and>
         byteOffset r' \<le> max (byteOffset r) (size_bytes r + 1) \<and>
         (\<forall>dl. fr \<noteq> Start dl)"
  using assms
proof (induction client d r s rule: fetchLoop.induct)
  case (1 client d r s)
  show ?case
  proof (cases "byteOffset r < size_bytes r")
    case False
    with "1.prems" show ?thesis by (simp add: fetchLoop.simps)
  next
    case True
    show ?thesis
    proof (cases "fetchChunk client d r s")
      case (Continue x)
      obtain r1 s1 where x: "x = (r1, s1)" by (cases x)
      from fetchChunk_cursor(1) [OF True Continue [unfolded x]]
      have f: "size_bytes r1 = size_bytes r" "bufferSize r1 = bufferSize r"
        "reader.more r1 = reader.more r"
        "byteOffset r < byteOffset r1" "byteOffset r1 \<le> size_bytes r + 1"
        by simp_all
      have "fetchLoop client d r1 s1 = (out, fr, r', s')"
        using "1.prems" True Continue x by (simp add: fetchLoop.simps)
      from "1.IH" [OF True Continue x [symmetric] this] f
      show ?thesis by auto
    next
      case (Settle y)
      with "1.prems" True have "fetchChunk client d r s = Settle (out, fr, r', s')"
        by (simp add: fetchLoop.simps)
      from fetchChunk_cursor(2) [OF True this] show ?thesis by auto
    qed
  qed
qed

lemma gen_next_fields:
  fixes client :: "('e, 's) s3" and r :: "'a reader_scheme"
  assumes "gen_next client (fr, r, s) = (out, fr', r', s')"
  shows "byteOffset r \<le> byteOffset r' \<and> bufferSize r' = bufferSize r \<and>
         reader.more r' = reader.more r \<and> (\<forall>dl. fr' \<noteq> Start dl) \<and>
         ((\<forall>dl. fr \<noteq> Start dl) \<longrightarrow>
            size_bytes r' = size_bytes r \<and>
            byteOffset r' \<le> max (byteOffset r) (size_bytes r + 1)) \<and>
         (byteOffset r = 0 \<longrightarrow> byteOffset r' \<le> size_bytes r' + 1)"
proof (cases fr)
  case (Start d)
  show ?thesis
  proof (cases "headObject client (bucket r) (key r) s")
    case (Pair res s1)
    show ?thesis
    proof (cases res)
      case (Inl e)
      with assms Start Pair show ?thesis by (auto simp: gen_next_def)
    next
      case (Inr len)
      let ?r = "r\<lparr>size_bytes := (case len of None \<Rightarrow> 0 | Some n \<Rightarrow> n)\<rparr>"
      from assms Start Pair Inr have "fetchLoop client d ?r s1 = (out, fr', r', s')"
        by (simp add: gen_next_def)
      from fetchLoop_cursor [OF this] Start show ?thesis by auto
    qed
  qed
next
  case (Suspended d x i)
  let ?data = "substringFrom x (i + length d)"
  show ?thesis
  proof (cases "scanLines d ?data r s :: ('a reader_scheme \<times> 's, 'e step \<times> frame \<times> 'a reader_scheme \<times> 's) control")
    case (Continue y)
    obtain r1 s1 where y: "y = (r1, s1)" by (cases y)
    from scanLines_fields(1) [OF Continue [unfolded y]]
    have f: "byteOffset r1 = byteOffset r" "size_bytes r1 = size_bytes r"
      "bufferSize r1 = bufferSize r" "reader.more r1 = reader.more r" by simp_all
    from assms Suspended Continue y have "fetchLoop client d r1 s1 = (out, fr', r', s')"
      by (simp add: gen_next_def)
    from fetchLoop_cursor [OF this] f Suspended show ?thesis by auto
  next
    case (Settle z)
    with assms Suspended have "scanLines d ?data r s = Settle (out, fr', r', s')"
      by (simp add: gen_next_def)
    from scanLines_fields(2) [OF this] Suspended show ?thesis by auto
  qed
next
  case Finished
  with assms show ?thesis by (auto simp: gen_next_def)
qed

lemma gen_next_cursor:
  fixes client :: "('e, 's) s3" and r :: "'a reader_scheme"
  assumes "cursor_inv (fr, r, s)"
    and "gen_next client (fr, r, s) = (out, fr', r', s')"
  shows "byteOffset r \<le> byteOffset r' \<and> byteOffset r' \<le> size_bytes r' + 1 \<and>
         (\<forall>dl. fr' \<noteq> Start dl)"
  using gen_next_fields [OF assms(2)] assms(1)
  by (cases fr) (auto simp: cursor_inv_def)

lemma cursor_inv_step:
  assumes "cursor_inv cfg"
  shows "cursor_inv (snd (gen_next client cfg)) \<and>
         cursor_of cfg \<le> cursor_of (snd (gen_next client cfg))"
proof -
  obtain fr r s where cfg: "cfg = (fr, r, s)" by (cases cfg)
  obtain out fr' r' s' where nx: "gen_next client (fr, r, s) = (out, fr', r', s')"
    by (cases "gen_next client (fr, r, s)")
  from gen_next_cursor [OF assms [unfolded cfg] nx] show ?thesis
    unfolding cfg nx by (cases fr') (simp_all add: cursor_inv_def cursor_of_def)
qed

lemma cursor_inv_after_calls:
  "cursor_inv (after_calls (gen_next client) k (getLines delimiter, S3LineReader b ky bufSize, s0))"
proof (induction k)
  case 0
  show ?case by (simp add: cursor_inv_def getLines_def S3LineReader_def)
next
  case (Suc k)
  from cursor_inv_step [OF Suc, of client] show ?case by simp
qed

lemma cursor_inv_bound: "cursor_inv cfg \<Longrightarrow> cursor_of cfg \<le> total_of cfg + 1"
  by (auto simp: cursor_inv_def cursor_of_def total_of_def split: prod.splits frame.splits)

lemma send_mock_Body: "send (s3Mock content flt) b k lo hi n \<noteq> (Inr None, n')"
  by (cases flt) (auto simp: s3Mock_def)

lemma fetchChunk_mock_Return:
  "fetchChunk (s3Mock content flt) d r n \<noteq> Settle (Return t, fr, r', n')"
proof -
  obtain res n1 where s: "send (s3Mock content flt) (bucket r) (key r) (byteOffset r)
      (if byteOffset r + bufferSize r > size_bytes r then size_bytes r
       else byteOffset r + bufferSize r) n = (res, n1)"
    by (cases "send (s3Mock content flt) (bucket r) (key r) (byteOffset r)
      (if byteOffset r + bufferSize r > size_bytes r then size_bytes r
       else byteOffset r + bufferSize r) n")
  with send_mock_Body [of content flt] have "res \<noteq> Inr None" by metis
  with s show ?thesis
    by (auto simp: fetchChunk_def Let_def scanLines_def
        split: sum.splits option.splits if_splits)
qed

lemma fetchLoop_mock_Return:
  "fetchLoop (s3Mock content flt) d r n = (Return t, fr, r', n') \<Longrightarrow>
   size_bytes r' \<le> byteOffset r'"
proof (induction "s3Mock content flt" d r n rule: fetchLoop.induct)
  case (1 d r n)
  show ?case
  proof (cases "byteOffset r < size_bytes r")
    case False
    with "1.prems" show ?thesis by (simp add: fetchLoop.simps)
  next
    case True
    show ?thesis
    proof (cases "fetchChunk (s3Mock content flt) d r n")
      case (Continue x)
      obtain r1 n1 where x: "x = (r1, n1)" by (cases x)
      have "fetchLoop (s3Mock content flt) d r1 n1 = (Return t, fr, r', n')"
        using "1.prems" True Continue x by (simp add: fetchLoop.simps)
      from "1.hyps" [OF True Continue x [symmetric] this] show ?thesis .
    next
      case (Settle y)
      with "1.prems" True fetchChunk_mock_Return [of content flt d r n t fr r' n']
      show ?thesis by (simp add: fetchLoop.simps)
    qed
  qed
qed

lemma gen_next_mock_Return:
  assumes "gen_next (s3Mock content flt) (fr, r, n) = (Return t, fr', r', n')"
  shows "size_bytes r' \<le> byteOffset r'"
proof (cases fr)
  case (Start d)
  with assms show ?thesis
    by (auto simp: gen_next_def split: prod.splits sum.splits dest: fetchLoop_mock_Return)
next
  case (Suspended d x i)
  with assms show ?thesis
    by (auto simp: gen_next_def scanLines_def split: control.splits if_splits option.splits
        dest: fetchLoop_mock_Return)
next
  case Finished
  with assms show ?thesis by (simp add: gen_next_def)
qed

text \<open>
  Claim C6, as stated, fails: the whole pass over an object of 3 bytes with a buffer of
  8 bytes is one request for the range 0-3, after which the cursor is 4, beyond the
  size 3.
\<close>

theorem getLines_cursor_counterexample:
  "\<not> cursor_of (after_calls (gen_next (s3Mock ''abc'' (NoFault :: unit fault))) 1
          (getLines None, S3LineReader ''some-bucket'' ''some-key'' (Some 8), 0))
     \<le> total_of (after_calls (gen_next (s3Mock ''abc'' (NoFault :: unit fault))) 1
          (getLines None, S3LineReader ''some-bucket'' ''some-key'' (Some 8), 0))"
  by (simp add: cursor_of_def total_of_def getLines_def S3LineReader_def gen_next_def
      fetchLoop.simps fetchChunk_def scanLines_def s3Mock_def readStream_def subarray_def
      toString_def)

text \<open>
  Claim C6, amended. In \<^verbatim>\<open>s3-line-reader.ts\<close>, with any client, the cursor is 0 in a new
  reader, never decreases from one call of \<^verbatim>\<open>next()\<close> to the following one, and is at
  most the size of the object plus one after any number of calls. Every pass of the
  fetch loop that goes on to another pass has moved the cursor strictly forward, to at
  most the size plus one. With the mocked client, when \<^verbatim>\<open>next()\<close> returns the final
  value the cursor is the size of the object or the size plus one.
\<close>

theorem getLines_cursor_bounds:
  fixes client :: "('e, 's) s3" and flt :: "'f fault"
  shows "cursor_of (after_calls (gen_next client) 0
                      (getLines delimiter, S3LineReader b ky bufSize, s0)) = 0 \<and>
         cursor_of (after_calls (gen_next client) k
                      (getLines delimiter, S3LineReader b ky bufSize, s0))
           \<le> total_of (after_calls (gen_next client) k
                          (getLines delimiter, S3LineReader b ky bufSize, s0)) + 1 \<and>
         cursor_of (after_calls (gen_next client) k
                      (getLines delimiter, S3LineReader b ky bufSize, s0))
           \<le> cursor_of (after_calls (gen_next client) (Suc k)
                          (getLines delimiter, S3LineReader b ky bufSize, s0)) \<and>
         (\<forall>d (r :: reader) s r' s'.
            byteOffset r < size_bytes r \<and> fetchChunk client d r s = Continue (r', s') \<longrightarrow>
            byteOffset r < byteOffset r' \<and> byteOffset r' \<le> size_bytes r' + 1) \<and>
         (\<forall>t cfg'.
            gen_next (s3Mock content flt)
              (after_calls (gen_next (s3Mock content flt)) k
                 (getLines delimiter, S3LineReader b ky bufSize, n0)) = (Return t, cfg') \<longrightarrow>
            total_of cfg' \<le> cursor_of cfg' \<and> cursor_of cfg' \<le> total_of cfg' + 1)"
proof (intro conjI allI impI)
  let ?init = "(getLines delimiter, S3LineReader b ky bufSize, s0)"
  show "cursor_of (after_calls (gen_next client) 0 ?init) = 0"
    by (simp add: cursor_of_def S3LineReader_def)
  have inv: "cursor_inv (after_calls (gen_next client) k ?init)"
    by (rule cursor_inv_after_calls)
  then show "cursor_of (after_calls (gen_next client) k ?init)
             \<le> total_of (after_calls (gen_next client) k ?init) + 1"
    by (rule cursor_inv_bound)
  from cursor_inv_step [OF inv, of client]
  show "cursor_of (after_calls (gen_next client) k ?init)
        \<le> cursor_of (after_calls (gen_next client) (Suc k) ?init)"
    by simp
next
  fix d and r :: reader and s r' s'
  assume a: "byteOffset r < size_bytes r \<and> fetchChunk client d r s = Continue (r', s')"
  from fetchChunk_cursor(1) [of r client d s r' s'] a
  show "byteOffset r < byteOffset r'" and "byteOffset r' \<le> size_bytes r' + 1"
    by simp_all
next
  fix t cfg'
  let ?m = "s3Mock content flt"
  let ?c = "after_calls (gen_next ?m) k (getLines delimiter, S3LineReader b ky bufSize, n0)"
  assume a: "gen_next ?m ?c = (Return t, cfg')"
  obtain fr r n where c: "?c = (fr, r, n)" by (cases ?c)
  obtain fr' r' n' where c': "cfg' = (fr', r', n')" by (cases cfg')
  from a c c' have nx: "gen_next ?m (fr, r, n) = (Return t, fr', r', n')" by simp
  from gen_next_mock_Return [OF nx]
  show "total_of cfg' \<le> cursor_of cfg'"
    by (simp add: c' total_of_def cursor_of_def)
  have "cursor_inv ?c" by (rule cursor_inv_after_calls)
  from cursor_inv_step [OF this, of ?m] a
  show "cursor_of cfg' \<le> total_of cfg' + 1"
    by (auto dest: cursor_inv_bound)
qed

theorem getLines_cursor_bounds_witness:
  "gen_next (s3Mock ''abc'' (NoFault :: unit fault))
     (after_calls (gen_next (s3Mock ''abc'' (NoFault :: unit fault))) 0
        (getLines None, S3LineReader ''some-bucket'' ''some-key'' (Some 8), 0))
     = (Return (toString ''abc''), Finished,
        \<lparr>bucket = ''some-bucket'', key = ''some-key'', bufferSize = 8, byteOffset = 4,
         partial = toString ''abc'', size_bytes = 3\<rparr>, 1) \<and>
   total_of (Finished,
        \<lparr>bucket = ''some-bucket'', key = ''some-key'', bufferSize = 8, byteOffset = 4,
         partial = toString ''abc'', size_bytes = 3\<rparr>, 1 :: nat)
     \<le> cursor_of (Finished,
        \<lparr>bucket = ''some-bucket'', key = ''some-key'', bufferSize = 8, byteOffset = 4,
         partial = toString ''abc'', size_bytes = 3\<rparr>, 1 :: nat)"
proof -
  have e: "gen_next (s3Mock ''abc'' (NoFault :: unit fault))
     (after_calls (gen_next (s3Mock ''abc'' (NoFault :: unit fault))) 0
        (getLines None, S3LineReader ''some-bucket'' ''some-key'' (Some 8), 0))
     = (Return (toString ''abc''), Finished,
        \<lparr>bucket = ''some-bucket'', key = ''some-key'', bufferSize = 8, byteOffset = 4,
         partial = toString ''abc'', size_bytes = 3\<rparr>, 1)"
    by (simp add: getLines_def S3LineReader_def gen_next_def
        fetchLoop.simps fetchChunk_def scanLines_def s3Mock_def readStream_def subarray_def
        toString_def)
  with getLines_cursor_bounds [of "s3Mock ''abc'' (NoFault :: unit fault)" None
      "''some-bucket''" "''some-key''" "Some 8" 0 0 "''abc''" "NoFault :: unit fault" 0]
  show ?thesis by blast
qed

section \<open>Construction\<close>

text \<open>
  Claim C7, as stated, fails: a reader of \<^verbatim>\<open>s3-line-reader.ts\<close> is constructed with the
  buffer size 0 and read to the end with the empty delimiter (here over an empty
  object) without any error, and the constructor of \<^verbatim>\<open>part_000\<close>, given the empty
  delimiter and the buffer size 0, constructs a reader with the default values.
\<close>

theorem constructor_accepts_counterexample:
  "bufferSize (S3LineReader ''some-bucket'' ''some-key'' (Some 0)) = 0 \<and>
   readObject (s3Mock [] (NoFault :: unit fault)) 0 (Some 0) (Some [])
     = Some ([], Return [], Finished,
             (S3LineReader ''some-bucket'' ''some-key'' (Some 0)), 0) \<and>
   lineDelimiter (S3LineReader_000 ''some-bucket'' ''some-key''
       \<lparr>cfg_bufferSize = Some 0, cfg_lineDelimiter = Some []\<rparr>) = [0x0A] \<and>
   bufferSize (S3LineReader_000 ''some-bucket'' ''some-key''
       \<lparr>cfg_bufferSize = Some 0, cfg_lineDelimiter = Some []\<rparr>) = 131072"
  by (simp add: S3LineReader_def S3LineReader_000_def readObject_def getLines_def drain.simps
      gen_next_def fetchLoop.simps s3Mock_def)

text \<open>
  Claim C7, amended. No constructor fails or calls the client. The constructor of
  \<^verbatim>\<open>s3-line-reader.ts\<close> keeps the buffer size it is given, whatever it is, and
  \<^verbatim>\<open>getLines\<close> takes the delimiter it is given, whatever it is. The constructor of
  \<^verbatim>\<open>part_000\<close> replaces an empty delimiter by the newline character and a buffer size
  of 0 by 131072, so that its reader has a non-empty delimiter and a positive buffer
  size.
\<close>

theorem constructor_defaults:
  "bufferSize (S3LineReader b k bufSize) = (case bufSize of None \<Rightarrow> 131072 | Some n \<Rightarrow> n) \<and>
   getLines delimiter = Start (case delimiter of None \<Rightarrow> [0x0A] | Some d \<Rightarrow> d) \<and>
   lineDelimiter (S3LineReader_000 b k config)
     = (case cfg_lineDelimiter config of
          None \<Rightarrow> [0x0A] | Some d \<Rightarrow> if d = [] then [0x0A] else d) \<and>
   bufferSize (S3LineReader_000 b k config)
     = (case cfg_bufferSize config of
          None \<Rightarrow> 131072 | Some n \<Rightarrow> if n = 0 then 131072 else n) \<and>
   lineDelimiter (S3LineReader_000 b k config) \<noteq> [] \<and>
   0 < bufferSize (S3LineReader_000 b k config)"
  by (simp add: S3LineReader_def S3LineReader_000_def getLines_def split: option.splits)

section \<open>Repeated calls of getLines\<close>

text \<open>In \<^verbatim>\<open>part_000\<close> every call of \<^verbatim>\<open>getLines\<close> after the first returns the generator
  of the first call and changes nothing, also after the generator has gone on.\<close>

lemma getLines_000_same_generator:
  fixes client :: "('e, 's) s3"
  assumes "getLines_000 (r, gens) = (g, r1, gens1)"
    and "next_on (gen_next_000 client) g (r1, gens1, s) = (out, r2, gens2, s2)"
  shows "getLines_000 (r1, gens1) = (g, r1, gens1) \<and>
         getLines_000 (r2, gens2) = (g, r2, gens2)"
proof -
  from assms(1) have g1: "generator r1 = Some g"
    by (auto simp: getLines_000_def split: option.splits)
  have "reader.more r2 = reader.more r1"
    using assms(2)
    by (auto simp: next_on_def gen_next_000_def split: if_splits prod.splits
        dest!: gen_next_fields)
  then have "generator r2 = generator r1"
    by (metis reader_000.select_convs(1) reader_000.surjective reader.surjective
        reader.select_convs reader_000.simps)
  with g1 show ?thesis by (simp add: getLines_000_def)
qed

text \<open>
  Claim C5 evaluated on \<^verbatim>\<open>s3-line-reader.ts\<close>, whose \<^verbatim>\<open>getLines\<close> is the generator
  function itself: over the object of the three lines a, b and c, the first
  generator yields a; a second call of \<^verbatim>\<open>getLines\<close> returns another generator, which at
  its first \<^verbatim>\<open>next()\<close> finds the cursor of the reader at the end and returns the empty
  string, while the first generator goes on to yield b.
\<close>

theorem getLines_new_generator_each_call:
  "(let client = s3Mock [CHR ''a'', CHR 0x0A, CHR ''b'', CHR 0x0A, CHR ''c''] (NoFault :: unit fault);
        (g1, r1, gens1) = getLines_obj None (S3LineReader ''some-bucket'' ''some-key'' (Some 8), []);
        (out1, r2, gens2, s2) = next_on (gen_next client) g1 (r1, gens1, 0);
        (g2, r3, gens3) = getLines_obj None (r2, gens2);
        (out2, r4, gens4, s4) = next_on (gen_next client) g2 (r3, gens3, s2);
        (out3, r5, gens5, s5) = next_on (gen_next client) g1 (r4, gens4, s4)
    in g1 \<noteq> g2 \<and> out1 = Yield (toString ''a'') \<and> out2 = Return [] \<and> out3 = Yield (toString ''b''))"
  by (simp add: getLines_obj_def getLines_def S3LineReader_def next_on_def gen_next_def
      fetchLoop.simps fetchChunk_def scanLines_def s3Mock_def readStream_def subarray_def
      substring_def substringFrom_def toString_def)

section \<open>Failures of the client\<close>

text \<open>A fault of the mocked client that hits a single call of \<open>send\<close>: the request
  itself or the stream of its answer.\<close>

definition transient :: "'e fault \<Rightarrow> nat \<Rightarrow> 'e \<Rightarrow> bool" where
  "transient flt m e \<longleftrightarrow> flt = SendFault m e \<or> flt = StreamFault m e"

lemma headObject_transient [simp]:
  "transient flt m e \<Longrightarrow> headObject (s3Mock content flt) b k n = (Inr (Some (length content)), n)"
  by (auto simp: transient_def s3Mock_def)

lemma send_transient_good:
  "transient flt m e \<Longrightarrow> n \<noteq> m \<Longrightarrow>
   send (s3Mock content flt) b k lo hi n =
     (Inr (Some (Readable [subarray content lo (hi + 1)] None)), Suc n)"
  by (auto simp: transient_def s3Mock_def)

lemma fetchChunk_transient_good:
  assumes "transient flt m e" and "n \<noteq> m"
  shows "fetchChunk (s3Mock content flt) d r n =
     scanLines d (partial r @ toString (subarray content (byteOffset r) (byteOffsetTop r + 1)))
       (r\<lparr>byteOffset := byteOffsetTop r + 1, partial := []\<rparr>) (Suc n)"
  by (simp add: fetchChunk_def byteOffsetTop_def Let_def send_transient_good [OF assms])

lemma fetchChunk_transient_bad:
  assumes "transient flt m e"
  shows "\<exists>r'. fetchChunk (s3Mock content flt) d r m = Settle (Throw e, Finished, r', Suc m)"
  using assms by (auto simp: transient_def fetchChunk_def Let_def s3Mock_def)

lemma textOfChunks_step:
  assumes "byteOffset r < size_bytes r" and "size_bytes r = length content"
  shows "textOfChunks content (bufferSize r) (byteOffset r) (Suc k)
         = toString (subarray content (byteOffset r) (byteOffsetTop r + 1))
           @ textOfChunks content (bufferSize r) (byteOffsetTop r + 1) k"
  using assms by (simp add: byteOffsetTop_def)

definition fails_as ::
  "string \<Rightarrow> utf16 \<Rightarrow> nat \<Rightarrow> 'e \<Rightarrow> nat \<Rightarrow> utf16 \<Rightarrow>
   'e step \<times> frame \<times> 'a reader_scheme \<times> nat \<Rightarrow> bool" where
  "fails_as content d m e bs w res =
     (case indexOf w d of
        None \<Rightarrow> (\<exists>r'. res = (Throw e, Finished, r', Suc m))
      | Some j \<Rightarrow> (\<exists>x r' n'. res = (Yield (take j w), Suspended d x j, r', n') \<and>
                     indexOf x d = Some j \<and> partial r' = [] \<and>
                     size_bytes r' = length content \<and> bufferSize r' = bs \<and> n' \<le> m \<and>
                     byteOffset r' + (m - n') * (bs + 1) < length content \<and>
                     x @ textOfChunks content bs (byteOffset r') (m - n') = w))"

lemma fetchLoop_transient:
  assumes "d \<noteq> []" and "transient flt m e"
    and "size_bytes r = length content" and "indexOf (partial r) d = None"
    and "n \<le> m" and "byteOffset r + (m - n) * (bufferSize r + 1) < length content"
  shows "fails_as content d m e (bufferSize r)
           (partial r @ textOfChunks content (bufferSize r) (byteOffset r) (m - n))
           (fetchLoop (s3Mock content flt) d r n)"
  using assms(3-)
proof (induction "m - n" arbitrary: r n)
  case 0
  then have n: "n = m" and lt: "byteOffset r < size_bytes r" by simp_all
  from fetchChunk_transient_bad [OF assms(2), of content d r] obtain r' where
    "fetchChunk (s3Mock content flt) d r m = Settle (Throw e, Finished, r', Suc m)" by blast
  then have "fetchLoop (s3Mock content flt) d r n = (Throw e, Finished, r', Suc m)"
    using n lt by (subst fetchLoop.simps) simp
  then show ?case
    using 0 n by (auto simp: fails_as_def)
next
  case (Suc k)
  let ?C = "s3Mock content flt"
  let ?B = "bufferSize r"
  let ?off = "byteOffset r"
  from Suc.hyps(2) have nm: "n \<noteq> m" "Suc n \<le> m" and k: "k = m - Suc n" by simp_all
  from Suc.hyps(2) have mn: "(m - n) * (?B + 1) = (?B + 1) + k * (?B + 1)"
    by (metis mult_Suc)
  with Suc.prems(4) have reach: "?off + ?B + 1 + k * (?B + 1) < length content" by simp
  then have lt: "?off < size_bytes r" and top: "byteOffsetTop r = ?off + ?B"
    using Suc.prems(1) by (simp_all add: byteOffsetTop_def)
  let ?chunk = "toString (subarray content ?off (byteOffsetTop r + 1))"
  let ?data = "partial r @ ?chunk"
  let ?r2 = "r\<lparr>byteOffset := byteOffsetTop r + 1, partial := []\<rparr>"
  have ne: "?data \<noteq> []"
    using chunk_nonempty [OF lt Suc.prems(1)] by simp
  let ?w = "partial r @ textOfChunks content ?B ?off (m - n)"
  let ?rest = "textOfChunks content ?B (?off + ?B + 1) k"
  have w: "?w = ?data @ ?rest"
    using textOfChunks_step [OF lt Suc.prems(1), of k] Suc.hyps(2) top
    by (simp add: add.assoc)
  show ?case
  proof (cases "indexOf ?data d")
    case None
    let ?r3 = "?r2\<lparr>partial := ?data\<rparr>"
    have step: "fetchLoop ?C d r n = fetchLoop ?C d ?r3 (Suc n)"
      using lt None ne
      by (subst fetchLoop.simps)
        (simp add: fetchChunk_transient_good [OF assms(2) nm(1)] scanLines_def)
    have "fails_as content d m e (bufferSize ?r3)
            (partial ?r3 @ textOfChunks content (bufferSize ?r3) (byteOffset ?r3) (m - Suc n))
            (fetchLoop ?C d ?r3 (Suc n))"
      using Suc.prems None nm reach k top
      by (intro Suc.hyps(1)) simp_all
    then show ?thesis
      unfolding step w using k top by simp
  next
    case (Some j)
    have res: "fetchLoop ?C d r n = (Yield (take j ?data), Suspended d ?data j, ?r2, Suc n)"
      using lt Some ne
      by (subst fetchLoop.simps)
        (auto simp: fetchChunk_transient_good [OF assms(2) nm(1)] scanLines_def substring_def)
    have A: "indexOf ?w d = Some j"
      unfolding w using Some by (rule indexOf_append)
    have "take j ?w = take j ?data"
      using indexOf_Some_bound [OF Some] unfolding w by simp
    with res have res': "fetchLoop ?C d r n = (Yield (take j ?w), Suspended d ?data j, ?r2, Suc n)"
      by (simp only:)
    have off2: "byteOffset ?r2 = ?off + ?B + 1"
      using top by simp
    have F: "partial ?r2 = []" "size_bytes ?r2 = length content" "bufferSize ?r2 = ?B"
      using Suc.prems(1) by simp_all
    have C: "byteOffset ?r2 + (m - Suc n) * (?B + 1) < length content"
      unfolding off2 k [symmetric] by (rule reach)
    have D: "?data @ textOfChunks content ?B (byteOffset ?r2) (m - Suc n) = ?w"
      unfolding off2 k [symmetric] by (rule w [symmetric])
    show ?thesis
      unfolding fails_as_def A option.case
      using res' Some F nm(2) C D by blast
  qed
qed

lemma gen_next_Suspended_transient:
  assumes "d \<noteq> []" and "transient flt m e"
    and "size_bytes r = length content" and "partial r = []"
    and "n \<le> m" and "byteOffset r + (m - n) * (bufferSize r + 1) < length content"
  shows "fails_as content d m e (bufferSize r)
           (drop (i + length d) x @ textOfChunks content (bufferSize r) (byteOffset r) (m - n))
           (gen_next (s3Mock content flt) (Suspended d x i, r, n))"
proof -
  let ?C = "s3Mock content flt"
  let ?p = "drop (i + length d) x"
  let ?rest = "textOfChunks content (bufferSize r) (byteOffset r) (m - n)"
  let ?w = "?p @ ?rest"
  show ?thesis
  proof (cases "indexOf ?p d")
    case None
    have "r\<lparr>partial := partial r\<rparr> = r" by simp
    with assms(4) have idem: "r\<lparr>partial := []\<rparr> = r" by simp
    have "gen_next ?C (Suspended d x i, r, n) = fetchLoop ?C d (r\<lparr>partial := ?p\<rparr>) n"
      using None idem
      by (cases "?p = []") (simp_all add: gen_next_def scanLines_def substringFrom_def)
    moreover have "fails_as content d m e (bufferSize r) ?w (fetchLoop ?C d (r\<lparr>partial := ?p\<rparr>) n)"
      using fetchLoop_transient [OF assms(1,2), of "r\<lparr>partial := ?p\<rparr>" content n] assms None
      by simp
    ultimately show ?thesis by simp
  next
    case (Some j)
    from Some assms(1) have "?p \<noteq> []" by auto
    then have res: "gen_next ?C (Suspended d x i, r, n) = (Yield (take j ?p), Suspended d ?p j, r, n)"
      using Some by (simp add: gen_next_def scanLines_def substringFrom_def substring_def)
    have A: "indexOf ?w d = Some j"
      using Some by (rule indexOf_append)
    have "take j ?w = take j ?p"
      using indexOf_Some_bound [OF Some] by simp
    with res have res': "gen_next ?C (Suspended d x i, r, n) = (Yield (take j ?w), Suspended d ?p j, r, n)"
      by (simp only:)
    show ?thesis
      unfolding fails_as_def A option.case
      using res' Some assms(3-) by blast
  qed
qed

lemma gen_next_Start_transient:
  assumes "d \<noteq> []" and "transient flt m e"
    and "indexOf (partial r) d = None"
    and "n \<le> m" and "byteOffset r + (m - n) * (bufferSize r + 1) < length content"
  shows "fails_as content d m e (bufferSize r)
           (partial r @ textOfChunks content (bufferSize r) (byteOffset r) (m - n))
           (gen_next (s3Mock content flt) (Start d, r, n))"
  using fetchLoop_transient [OF assms(1,2), of "r\<lparr>size_bytes := length content\<rparr>" content n] assms
  by (simp add: gen_next_def)

lemma drain_fails:
  assumes "d \<noteq> []" and "transient flt m e"
    and "fails_as content d m e bs w (gen_next (s3Mock content flt) cfg)"
  shows "\<exists>r'. drain (gen_next (s3Mock content flt)) cfg
                = Some (fst (splitAll d w), Throw e, Finished, r', Suc m)"
  using assms(3)
proof (induction "length w" arbitrary: w cfg rule: less_induct)
  case less
  let ?nxt = "gen_next (s3Mock content flt)"
  show ?case
  proof (cases "indexOf w d")
    case None
    with less.prems obtain r' where "?nxt cfg = (Throw e, Finished, r', Suc m)"
      by (auto simp: fails_as_def)
    then have "drain ?nxt cfg = Some ([], Throw e, Finished, r', Suc m)"
      by (rule drain_Throw)
    then show ?thesis
      using None assms(1) by (simp add: splitAll_None)
  next
    case (Some j)
    from less.prems have "\<exists>x r' n'. ?nxt cfg = (Yield (take j w), Suspended d x j, r', n') \<and>
                     indexOf x d = Some j \<and> partial r' = [] \<and>
                     size_bytes r' = length content \<and> bufferSize r' = bs \<and> n' \<le> m \<and>
                     byteOffset r' + (m - n') * (bs + 1) < length content \<and>
                     x @ textOfChunks content bs (byteOffset r') (m - n') = w"
      unfolding fails_as_def Some option.case .
    then obtain x r' n' where
      nx: "?nxt cfg = (Yield (take j w), Suspended d x j, r', n')" and
      x: "indexOf x d = Some j"
         "x @ textOfChunks content bs (byteOffset r') (m - n') = w" and
      r': "partial r' = []" "size_bytes r' = length content" "bufferSize r' = bs" "n' \<le> m"
          "byteOffset r' + (m - n') * (bs + 1) < length content"
      by blast
    let ?w' = "drop (j + length d) x @ textOfChunks content bs (byteOffset r') (m - n')"
    have w': "?w' = drop (j + length d) w"
      using indexOf_Some_bound [OF x(1)] x(2) by auto
    have "length ?w' < length w"
      unfolding w' using indexOf_Some_bound [OF Some] assms(1) by (cases d) auto
    moreover have "fails_as content d m e bs ?w' (?nxt (Suspended d x j, r', n'))"
      using gen_next_Suspended_transient [OF assms(1,2) r'(2) r'(1) r'(4), of j x] r'(5)
      unfolding r'(3) by blast
    ultimately obtain r'' where
      "drain ?nxt (Suspended d x j, r', n')
       = Some (fst (splitAll d ?w'), Throw e, Finished, r'', Suc m)"
      using less.hyps by blast
    with nx have "drain ?nxt cfg
       = Some (take j w # fst (splitAll d ?w'), Throw e, Finished, r'', Suc m)"
      by (rule drain_Yield)
    then show ?thesis
      unfolding w' by (simp add: splitAll_Some [OF assms(1) Some])
  qed
qed

lemma splitAll_append:
  assumes "d \<noteq> []"
  shows "fst (splitAll d (x @ y))
         = fst (splitAll d x) @ fst (splitAll d (snd (splitAll d x) @ y))"
  using assms
proof (induction d x rule: splitAll.induct)
  case (1 d x)
  show ?case
  proof (cases "indexOf x d")
    case None
    with 1 show ?thesis by (simp add: splitAll_None)
  next
    case (Some i)
    have ix: "indexOf (x @ y) d = Some i"
      using Some by (rule indexOf_append)
    have dr: "drop (i + length d) (x @ y) = drop (i + length d) x @ y"
      and tk: "take i (x @ y) = take i x"
      using indexOf_Some_bound [OF Some] by simp_all
    have L: "fst (splitAll d (x @ y)) = take i x # fst (splitAll d (drop (i + length d) x @ y))"
      using splitAll_Some [OF "1.prems" ix] unfolding dr tk by simp
    have R: "splitAll d x = (take i x # fst (splitAll d (drop (i + length d) x)),
                             snd (splitAll d (drop (i + length d) x)))"
      using "1.prems" Some by (rule splitAll_Some)
    from "1.IH" [OF "1.prems" Some "1.prems"] show ?thesis
      unfolding L R by simp
  qed
qed

lemma readObject_transient:
  assumes "d \<noteq> []" and "transient flt m e" and "m * (bs + 1) < length content"
  shows "\<exists>r'. readObject (s3Mock content flt) 0 (Some bs) (Some d)
               = Some (fst (splitAll d (textOfChunks content bs 0 m)), Throw e,
                       Finished, r', Suc m)"
proof -
  let ?r = "S3LineReader ''some-bucket'' ''some-key'' (Some bs)"
  have r: "partial ?r = []" "byteOffset ?r = 0" "bufferSize ?r = bs"
    by (simp_all add: S3LineReader_def)
  have "fails_as content d m e (bufferSize ?r)
          (partial ?r @ textOfChunks content (bufferSize ?r) (byteOffset ?r) (m - 0))
          (gen_next (s3Mock content flt) (Start d, ?r, 0))"
    using assms r by (intro gen_next_Start_transient) simp_all
  then have "fails_as content d m e bs (textOfChunks content bs 0 m)
          (gen_next (s3Mock content flt) (Start d, ?r, 0))"
    using r by simp
  from drain_fails [OF assms(1,2) this] show ?thesis
    by (simp add: readObject_def getLines_def)
qed

text \<open>
  Claim C8. In \<^verbatim>\<open>s3-line-reader.ts\<close>, for a non-empty delimiter: when the size query
  fails, the first \<^verbatim>\<open>next()\<close> is rejected with the error of the client, no record is
  yielded and no range is requested. When the request number \<open>m\<close> (counted from 0) or
  the stream of its answer fails, and the object is long enough for that request to be
  made, the consumer gets records, then the rejection with the error of the client and
  no final value: the generator is done afterwards. The client has then received
  exactly \<open>m + 1\<close> requests, so the failed one was not repeated, although the mocked
  client would have answered it the second time. The records yielded before the
  failure are the first records of the run without the fault.
\<close>

theorem getLines_failure_propagates:
  fixes e :: 'e
  assumes "delimiter \<noteq> []"
  shows "readObject (s3Mock content (HeadFault e)) n bufSize (Some delimiter)
           = Some ([], Throw e, Finished,
                   S3LineReader ''some-bucket'' ''some-key'' bufSize, n) \<and>
         (\<forall>flt. (flt = SendFault m e \<or> flt = StreamFault m e) \<and>
                m * (bs + 1) < length content \<longrightarrow>
            (\<exists>ls ls' t r' r'' n''.
               readObject (s3Mock content flt) 0 (Some bs) (Some delimiter)
                 = Some (ls, Throw e, Finished, r', Suc m) \<and>
               gen_next (s3Mock content flt) (Finished, r', Suc m)
                 = (Done, Finished, r', Suc m) \<and>
               readObject (s3Mock content (NoFault :: 'e fault)) 0 (Some bs) (Some delimiter)
                 = Some (ls @ ls', Return t, Finished, r'', n'')))"
proof (intro conjI allI impI)
  show "readObject (s3Mock content (HeadFault e)) n bufSize (Some delimiter)
           = Some ([], Throw e, Finished, S3LineReader ''some-bucket'' ''some-key'' bufSize, n)"
    by (simp add: readObject_def getLines_def drain.simps gen_next_def s3Mock_def)
next
  fix flt :: "'e fault"
  assume a: "(flt = SendFault m e \<or> flt = StreamFault m e) \<and> m * (bs + 1) < length content"
  then have tr: "transient flt m e" by (simp add: transient_def)
  let ?pre = "textOfChunks content bs 0 m"
  let ?w = "receivedText content (Some bs)"
  from readObject_transient [OF assms tr, of bs content] a obtain r' where
    f: "readObject (s3Mock content flt) 0 (Some bs) (Some delimiter)
        = Some (fst (splitAll delimiter ?pre), Throw e, Finished, r', Suc m)"
    by blast
  from readObject_NoFault [OF assms, of content 0 "Some bs"] obtain r'' n'' where
    g: "readObject (s3Mock content (NoFault :: 'e fault)) 0 (Some bs) (Some delimiter)
        = Some (fst (splitAll delimiter ?w), Return (snd (splitAll delimiter ?w)),
                Finished, r'', n'')"
    by blast
  from textFrom_chunks [of content bs 0 m] obtain rest where
    rest: "?w = ?pre @ rest" by (auto simp: receivedText_def)
  have "fst (splitAll delimiter (?pre @ rest))
        = fst (splitAll delimiter ?pre)
          @ fst (splitAll delimiter (snd (splitAll delimiter ?pre) @ rest))"
    using assms by (rule splitAll_append)
  then have p: "fst (splitAll delimiter ?w)
        = fst (splitAll delimiter ?pre)
          @ fst (splitAll delimiter (snd (splitAll delimiter ?pre) @ rest))"
    unfolding rest .
  have h: "gen_next (s3Mock content flt) (Finished, r', Suc m) = (Done, Finished, r', Suc m)"
    by (simp add: gen_next_def)
  show "\<exists>ls ls' t r' r'' n''.
          readObject (s3Mock content flt) 0 (Some bs) (Some delimiter)
            = Some (ls, Throw e, Finished, r', Suc m) \<and>
          gen_next (s3Mock content flt) (Finished, r', Suc m) = (Done, Finished, r', Suc m) \<and>
          readObject (s3Mock content (NoFault :: 'e fault)) 0 (Some bs) (Some delimiter)
            = Some (ls @ ls', Return t, Finished, r'', n'')"
    using f g h unfolding p by blast
qed

theorem getLines_failure_propagates_witness:
  "\<exists>ls ls' t r' r'' n''.
     readObject (s3Mock ''a,b,c,d'' (SendFault 2 ())) 0 (Some 1) (Some (toString '',''))
       = Some (ls, Throw (), Finished, r', Suc 2) \<and>
     gen_next (s3Mock ''a,b,c,d'' (SendFault 2 ())) (Finished, r', Suc 2)
       = (Done, Finished, r', Suc 2) \<and>
     readObject (s3Mock ''a,b,c,d'' (NoFault :: unit fault)) 0 (Some 1) (Some (toString '',''))
       = Some (ls @ ls', Return t, Finished, r'', n'')"
proof -
  have "toString '','' \<noteq> []" by (simp add: toString_def)
  from getLines_failure_propagates [OF this,
      where content = "''a,b,c,d''" and m = 2 and bs = 1 and e = "()"]
  show ?thesis by simp
qed

section \<open>Termination\<close>

text \<open>
  A bound of the amount of text that is still to be split: the carried-over text, the
  text after the record at which the generator is suspended, and the bytes not yet
  requested (a chunk is decoded to at most as many code units as it has bytes). The
  generator is alive when it has not ended.
\<close>

definition weight :: "string \<Rightarrow> frame \<times> 'a reader_scheme \<times> nat \<Rightarrow> nat" where
  "weight content cfg =
     (case cfg of (fr, r, n) \<Rightarrow>
        length (partial r)
        + (case fr of Suspended d x i \<Rightarrow> length x - (i + length d) | _ \<Rightarrow> 0)
        + (length content - byteOffset r))"

definition live :: "string \<Rightarrow> utf16 \<Rightarrow> frame \<times> 'a reader_scheme \<times> nat \<Rightarrow> bool" where
  "live content d cfg =
     (case cfg of (fr, r, n) \<Rightarrow>
        fr = Start d \<or> (\<exists>x i. fr = Suspended d x i \<and> size_bytes r = length content))"

lemma fetchChunk_001_NoFault:
  "fetchChunk_001 (s3Mock content NoFault) d r n =
     scanLines_001 d (toString (subarray content (byteOffset r) (byteOffsetTop r + 1)))
       (r\<lparr>byteOffset := byteOffsetTop r + 1\<rparr>) (Suc n)"
  by (simp add: fetchChunk_001_def byteOffsetTop_def Let_def)

lemma chunk_length:
  assumes "byteOffset r < size_bytes r" "size_bytes r = length content"
  shows "length (toString (subarray content (byteOffset r) (byteOffsetTop r + 1)))
         + (length content - (byteOffsetTop r + 1)) \<le> length content - byteOffset r"
proof -
  have "length (subarray content (byteOffset r) (byteOffsetTop r + 1))
        + (length content - (byteOffsetTop r + 1)) = length content - byteOffset r"
    using assms by (auto simp: subarray_def byteOffsetTop_def)
  with toString_length [of "subarray content (byteOffset r) (byteOffsetTop r + 1)"]
  show ?thesis by linarith
qed

lemma scanLines_001_progress:
  assumes "d \<noteq> []"
    and "scanLines_001 d data r n = Settle (out, fr, r', n')"
  shows "\<exists>l x j. out = Yield l \<and> fr = Suspended d x j \<and> partial r' = [] \<and>
           size_bytes r' = size_bytes r \<and> byteOffset r' = byteOffset r \<and>
           length x - (j + length d) < length (partial r) + length data"
proof -
  have *: "length x - (j + length d) < length x" if "indexOf x d = Some j" for x j
    using indexOf_Some_bound [OF that] assms(1) by (cases d) auto
  show ?thesis
  proof (cases "indexOf data d")
    case None
    with assms(2) obtain j where j: "indexOf (partial r @ data) d = Some j"
      and res: "out = Yield (take j (partial r @ data))" "fr = Suspended d (partial r @ data) j"
         "r' = r\<lparr>partial := []\<rparr>"
      by (auto simp: scanLines_001_closed split: if_splits option.splits)
    from * [OF j] res show ?thesis by simp
  next
    case (Some i)
    with assms(2) have res: "fr = Suspended d data i" "partial r' = []"
      "size_bytes r' = size_bytes r" "byteOffset r' = byteOffset r" "\<exists>l. out = Yield l"
      by (auto simp: scanLines_001_closed split: if_splits)
    from * [OF Some] res show ?thesis by auto
  qed
qed

lemma scanLines_001_carry:
  assumes "scanLines_001 d data r n = Continue (r', n')"
  shows "n' = n \<and> size_bytes r' = size_bytes r \<and> byteOffset r' = byteOffset r \<and>
         length (partial r') \<le> length (partial r) + length data"
  using assms by (auto simp: scanLines_001_closed split: if_splits option.splits)

lemma fetchLoop_001_progress:
  assumes "d \<noteq> []" and "size_bytes r = length content"
    and "fetchLoop_001 (s3Mock content (NoFault :: 'e fault)) d r n = (out, fr, r', n')"
  shows "(\<exists>t. out = Return t) \<or>
         (\<exists>l. out = Yield l \<and> live content d (fr, r', n') \<and>
              weight content (fr, r', n') < length (partial r) + (length content - byteOffset r))"
  using assms(2,3)
proof (induction "size_bytes r - byteOffset r" arbitrary: r n rule: less_induct)
  case less
  let ?C = "s3Mock content (NoFault :: 'e fault)"
  show ?case
  proof (cases "byteOffset r < size_bytes r")
    case False
    with less.prems show ?thesis by (auto simp: fetchLoop_001.simps)
  next
    case True
    let ?chunk = "toString (subarray content (byteOffset r) (byteOffsetTop r + 1))"
    let ?r1 = "r\<lparr>byteOffset := byteOffsetTop r + 1\<rparr>"
    note len = chunk_length [OF True less.prems(1)]
    show ?thesis
    proof (cases "scanLines_001 d ?chunk ?r1 (Suc n) :: ('a reader_scheme \<times> nat, 'e step \<times> frame \<times> 'a reader_scheme \<times> nat) control")
      case (Continue y)
      obtain r2 n2 where y: "y = (r2, n2)" by (cases y)
      from scanLines_001_carry [OF Continue [unfolded y]]
      have c: "size_bytes r2 = size_bytes r" "byteOffset r2 = byteOffsetTop r + 1"
        "length (partial r2) \<le> length (partial r) + length ?chunk" by simp_all
      have step: "fetchLoop_001 ?C d r2 n2 = (out, fr, r', n')"
        using less.prems(2) True Continue y
        by (subst (asm) fetchLoop_001.simps) (simp add: fetchChunk_001_NoFault)
      have "size_bytes r2 - byteOffset r2 < size_bytes r - byteOffset r"
        using True c by (auto simp: byteOffsetTop_def)
      from less.hyps [OF this _ step] c less.prems(1) len show ?thesis
        by auto
    next
      case (Settle z)
      with less.prems(2) True
      have s: "scanLines_001 d ?chunk ?r1 (Suc n) = Settle (out, fr, r', n')"
        by (subst (asm) fetchLoop_001.simps) (simp add: fetchChunk_001_NoFault)
      from scanLines_001_progress [OF assms(1) s] len less.prems(1) show ?thesis
        by (auto simp: live_def weight_def)
    qed
  qed
qed

lemma gen_next_001_progress:
  assumes "d \<noteq> []" and "live content d cfg"
    and "gen_next_001 (s3Mock content (NoFault :: 'e fault)) cfg = (out, cfg')"
  shows "(\<exists>t. out = Return t) \<or>
         (\<exists>l. out = Yield l \<and> live content d cfg' \<and> weight content cfg' < weight content cfg)"
proof -
  let ?C = "s3Mock content (NoFault :: 'e fault)"
  obtain fr r n where cfg: "cfg = (fr, r, n)" by (cases cfg)
  obtain fr' r' n' where cfg': "cfg' = (fr', r', n')" by (cases cfg')
  from assms(2) cfg consider (start) "fr = Start d"
    | (susp) x i where "fr = Suspended d x i" "size_bytes r = length content"
    by (auto simp: live_def)
  then show ?thesis
  proof cases
    case start
    let ?r = "r\<lparr>size_bytes := length content\<rparr>"
    from assms(3) cfg cfg' start
    have "fetchLoop_001 ?C d ?r n = (out, fr', r', n')"
      by (simp add: gen_next_001_def)
    from fetchLoop_001_progress [OF assms(1) _ this] cfg cfg' start show ?thesis
      by (simp add: weight_def)
  next
    case susp
    let ?data = "substringFrom x (i + length d)"
    have dl: "length ?data = length x - (i + length d)"
      by (simp add: substringFrom_def)
    show ?thesis
    proof (cases "scanLines_001 d ?data r n :: ('a reader_scheme \<times> nat, 'e step \<times> frame \<times> 'a reader_scheme \<times> nat) control")
      case (Continue y)
      obtain r2 n2 where y: "y = (r2, n2)" by (cases y)
      from scanLines_001_carry [OF Continue [unfolded y]]
      have c: "size_bytes r2 = size_bytes r" "byteOffset r2 = byteOffset r"
        "length (partial r2) \<le> length (partial r) + length ?data" by simp_all
      from assms(3) cfg cfg' susp Continue y
      have "fetchLoop_001 ?C d r2 n2 = (out, fr', r', n')"
        by (simp add: gen_next_001_def)
      from fetchLoop_001_progress [OF assms(1) _ this] c susp(2) dl cfg cfg' susp(1)
      show ?thesis by (auto simp: weight_def)
    next
      case (Settle z)
      with assms(3) cfg cfg' susp
      have "scanLines_001 d ?data r n = Settle (out, fr', r', n')"
        by (simp add: gen_next_001_def)
      from scanLines_001_progress [OF assms(1) this] dl susp cfg cfg' show ?thesis
        by (auto simp: live_def weight_def)
    qed
  qed
qed

lemma drain_001_returns:
  assumes "d \<noteq> []" and "live content d cfg"
  shows "\<exists>ls t fin. drain (gen_next_001 (s3Mock content (NoFault :: 'e fault))) cfg
                      = Some (ls, Return t, fin)"
  using assms(2)
proof (induction "weight content cfg" arbitrary: cfg rule: less_induct)
  case less
  let ?nxt = "gen_next_001 (s3Mock content (NoFault :: 'e fault))"
  obtain out cfg' where nx: "?nxt cfg = (out, cfg')" by (cases "?nxt cfg")
  from gen_next_001_progress [OF assms(1) less.prems nx]
  show ?case
  proof (elim disjE exE conjE)
    fix t assume "out = Return t"
    with nx have "drain ?nxt cfg = Some ([], Return t, cfg')"
      by (intro drain_Return) simp
    then show ?thesis by blast
  next
    fix l assume l: "out = Yield l" "live content d cfg'"
      "weight content cfg' < weight content cfg"
    from less.hyps [OF l(3) l(2)] obtain ls t fin where
      "drain ?nxt cfg' = Some (ls, Return t, fin)" by blast
    with nx l(1) have "drain ?nxt cfg = Some (l # ls, Return t, fin)"
      by (intro drain_Yield [where cfg' = cfg']) simp_all
    then show ?thesis by blast
  qed
qed

lemma readObject_001_returns:
  assumes "d \<noteq> []"
  shows "\<exists>ls t fin. readObject_001 (s3Mock content (NoFault :: 'e fault)) n bufSize (Some d)
                      = Some (ls, Return t, fin)"
proof -
  have "live content d (Start d, S3LineReader ''some-bucket'' ''some-key'' bufSize, n)"
    by (simp add: live_def)
  from drain_001_returns [OF assms this] show ?thesis
    by (simp add: readObject_001_def getLines_def)
qed

lemma drain_Some_ends:
  assumes "\<And>c. I c \<Longrightarrow> \<exists>l c'. nxt c = (Yield l, c') \<and> I c'"
    and "I cfg"
    and "drain nxt cfg = Some y"
  shows False
  using assms(1,2)
proof (induction nxt cfg y rule: drain.raw_induct)
  case (1 dr nxt cfg y)
  from "1.prems" obtain l c' where c': "nxt cfg = (Yield l, c')" "I c'" by blast
  with "1.hyps" obtain y' where "dr nxt c' = Some y'"
    by (cases "dr nxt c'") auto
  from "1.IH" [OF this "1.prems"(1) c'(2)] show ?case by simp
qed fact

lemma drain_never_ends:
  assumes "\<And>c. I c \<Longrightarrow> \<exists>l c'. nxt c = (Yield l, c') \<and> I c'"
    and "I cfg"
  shows "drain nxt cfg = None"
proof (cases "drain nxt cfg")
  case None
  then show ?thesis .
next
  case (Some y)
  from drain_Some_ends [of I nxt cfg y, OF assms Some] show ?thesis ..
qed

text \<open>With the empty delimiter the generator is suspended at a match at index 0 of a
  non-empty text, and comes back to that place at every call.\<close>

definition spinning :: "frame \<times> 'a reader_scheme \<times> 's \<Rightarrow> bool" where
  "spinning cfg = (case cfg of (fr, r, s) \<Rightarrow> \<exists>x. fr = Suspended [] x 0 \<and> x \<noteq> [])"

lemma gen_next_spinning:
  assumes "spinning cfg"
  shows "\<exists>l cfg'. gen_next client cfg = (Yield l, cfg') \<and> spinning cfg'"
  using assms
  by (auto simp: spinning_def gen_next_def scanLines_def substringFrom_def
      indexOf_empty_needle split: prod.splits)

lemma gen_next_001_spinning:
  assumes "spinning cfg"
  shows "\<exists>l cfg'. gen_next_001 client cfg = (Yield l, cfg') \<and> spinning cfg'"
  using assms
  by (auto simp: spinning_def gen_next_001_def scanLines_001_closed substringFrom_def
      indexOf_empty_needle split: prod.splits)

lemma start_spinning:
  assumes "content \<noteq> []"
  shows "\<exists>l cfg'. gen_next (s3Mock content (NoFault :: 'e fault))
                    (Start [], S3LineReader b k bufSize, n) = (Yield l, cfg') \<and> spinning cfg'"
proof -
  let ?r = "(S3LineReader b k bufSize)\<lparr>size_bytes := length content\<rparr>"
  have lt: "byteOffset ?r < size_bytes ?r"
    using assms by (simp add: S3LineReader_def)
  from chunk_nonempty [OF lt, of content]
  have ne: "toString (subarray content (byteOffset ?r) (byteOffsetTop ?r + 1)) \<noteq> []" by simp
  have p: "partial ?r = []" by (simp add: S3LineReader_def)
  show ?thesis
    using lt ne p
    by (simp add: gen_next_def fetchLoop.simps [of _ _ ?r] fetchChunk_NoFault scanLines_def
        indexOf_empty_needle spinning_def)
qed

lemma start_001_spinning:
  assumes "content \<noteq> []"
  shows "\<exists>l cfg'. gen_next_001 (s3Mock content (NoFault :: 'e fault))
                    (Start [], S3LineReader b k bufSize, n) = (Yield l, cfg') \<and> spinning cfg'"
proof -
  let ?r = "(S3LineReader b k bufSize)\<lparr>size_bytes := length content\<rparr>"
  have lt: "byteOffset ?r < size_bytes ?r"
    using assms by (simp add: S3LineReader_def)
  from chunk_nonempty [OF lt, of content]
  have ne: "toString (subarray content (byteOffset ?r) (byteOffsetTop ?r + 1)) \<noteq> []" by simp
  have p: "partial ?r = []" by (simp add: S3LineReader_def)
  show ?thesis
    using lt ne p
    by (simp add: gen_next_001_def fetchLoop_001.simps [of _ _ ?r] fetchChunk_001_NoFault
        scanLines_001_closed indexOf_empty_needle spinning_def)
qed

lemma drain_Yield_None:
  "nxt cfg = (Yield l, cfg') \<Longrightarrow> drain nxt cfg' = None \<Longrightarrow> drain nxt cfg = None"
  by (subst drain.simps) simp

lemma readObject_empty_delimiter:
  assumes "content \<noteq> []"
  shows "readObject (s3Mock content (NoFault :: 'e fault)) n bufSize (Some []) = None"
proof -
  let ?nxt = "gen_next (s3Mock content (NoFault :: 'e fault))"
  from start_spinning [OF assms] obtain l cfg' where
    s: "?nxt (Start [], S3LineReader ''some-bucket'' ''some-key'' bufSize, n) = (Yield l, cfg')"
    and sp: "spinning cfg'" by blast
  have "drain ?nxt cfg' = None"
    using gen_next_spinning sp by (rule drain_never_ends)
  with s show ?thesis
    by (simp add: readObject_def getLines_def drain_Yield_None)
qed

lemma readObject_001_empty_delimiter:
  assumes "content \<noteq> []"
  shows "readObject_001 (s3Mock content (NoFault :: 'e fault)) n bufSize (Some []) = None"
proof -
  let ?nxt = "gen_next_001 (s3Mock content (NoFault :: 'e fault))"
  from start_001_spinning [OF assms] obtain l cfg' where
    s: "?nxt (Start [], S3LineReader ''some-bucket'' ''some-key'' bufSize, n) = (Yield l, cfg')"
    and sp: "spinning cfg'" by blast
  have "drain ?nxt cfg' = None"
    using gen_next_001_spinning sp by (rule drain_never_ends)
  with s show ?thesis
    by (simp add: readObject_001_def getLines_def drain_Yield_None)
qed

text \<open>
  Claim C10. For every object, every buffer size and every non-empty delimiter, the
  consumer of a new reader comes to the end, with the final return value, both in
  \<^verbatim>\<open>s3-line-reader.ts\<close> and in \<^verbatim>\<open>part_001\<close>: the sequence of records is finite. The
  text left after a match is strictly shorter than the text before, and every pass of
  the fetch loop that goes on to another pass leaves the size as it is and moves the
  cursor strictly forward (which is why the fetch loops are total functions). The
  delimiter must not be empty: with the empty delimiter and a non-empty object the
  consumer of either variant never comes to an end.
\<close>

theorem getLines_terminates:
  fixes client :: "('e, 's) s3" and r :: reader
  shows
  "(delimiter \<noteq> [] \<longrightarrow>
      (\<exists>ls t fin. readObject (s3Mock content (NoFault :: 'f fault)) n bufSize (Some delimiter)
                     = Some (ls, Return t, fin)) \<and>
      (\<exists>ls t fin. readObject_001 (s3Mock content (NoFault :: 'f fault)) n bufSize (Some delimiter)
                     = Some (ls, Return t, fin)) \<and>
      (\<forall>data i. indexOf data delimiter = Some i \<longrightarrow>
         length (substringFrom data (i + length delimiter)) < length data)) \<and>
   (byteOffset r < size_bytes r \<longrightarrow>
      (\<forall>r' s'. fetchChunk client d r s = Continue (r', s') \<longrightarrow>
         size_bytes r' = size_bytes r \<and> byteOffset r < byteOffset r') \<and>
      (\<forall>r' s'. fetchChunk_001 client d r s = Continue (r', s') \<longrightarrow>
         size_bytes r' = size_bytes r \<and> byteOffset r < byteOffset r')) \<and>
   (content \<noteq> [] \<longrightarrow>
      readObject (s3Mock content (NoFault :: 'f fault)) n bufSize (Some []) = None \<and>
      readObject_001 (s3Mock content (NoFault :: 'f fault)) n bufSize (Some []) = None)"
proof (intro conjI impI allI)
  assume d: "delimiter \<noteq> []"
  from readObject_NoFault [OF d, of content n bufSize]
  show "\<exists>ls t fin. readObject (s3Mock content (NoFault :: 'f fault)) n bufSize (Some delimiter)
                     = Some (ls, Return t, fin)"
    by blast
  from d show "\<exists>ls t fin. readObject_001 (s3Mock content (NoFault :: 'f fault)) n bufSize
                     (Some delimiter) = Some (ls, Return t, fin)"
    by (rule readObject_001_returns)
  fix data i
  assume "indexOf data delimiter = Some i"
  from indexOf_Some_bound [OF this] d
  show "length (substringFrom data (i + length delimiter)) < length data"
    by (cases delimiter) (auto simp: substringFrom_def)
next
  fix r' s'
  assume lt: "byteOffset r < size_bytes r"
    and c: "fetchChunk client d r s = Continue (r', s')"
  from fetchChunk_Continue [OF c lt]
  show "size_bytes r' = size_bytes r" and "byteOffset r < byteOffset r'" by simp_all
next
  fix r' s'
  assume lt: "byteOffset r < size_bytes r"
    and c: "fetchChunk_001 client d r s = Continue (r', s')"
  from fetchChunk_001_Continue [OF c lt]
  show "size_bytes r' = size_bytes r" and "byteOffset r < byteOffset r'" by simp_all
next
  assume c: "content \<noteq> []"
  then show "readObject (s3Mock content (NoFault :: 'f fault)) n bufSize (Some []) = None"
    by (rule readObject_empty_delimiter)
  from c show "readObject_001 (s3Mock content (NoFault :: 'f fault)) n bufSize (Some []) = None"
    by (rule readObject_001_empty_delimiter)
qed

theorem getLines_terminates_witness:
  "(\<exists>ls t fin. readObject (s3Mock ''a,b'' (NoFault :: unit fault)) 0 (Some 1) (Some (toString '',''))
                     = Some (ls, Return t, fin)) \<and>
   (\<exists>ls t fin. readObject_001 (s3Mock ''a,b'' (NoFault :: unit fault)) 0 (Some 1) (Some (toString '',''))
                     = Some (ls, Return t, fin)) \<and>
   length (substringFrom (toString ''a,b'') (1 + length (toString '','')))
     < length (toString ''a,b'') \<and>
   byteOffset \<lparr>bucket = ''some-bucket'', key = ''some-key'', bufferSize = 1, byteOffset = 0,
               partial = [], size_bytes = 3\<rparr>
     < byteOffset \<lparr>bucket = ''some-bucket'', key = ''some-key'', bufferSize = 1,
                   byteOffset = 2, partial = toString ''a,'', size_bytes = 3\<rparr> \<and>
   readObject (s3Mock ''a,b'' (NoFault :: unit fault)) 0 (Some 1) (Some []) = None \<and>
   readObject_001 (s3Mock ''a,b'' (NoFault :: unit fault)) 0 (Some 1) (Some []) = None"
proof -
  let ?C = "s3Mock ''a,b'' (NoFault :: unit fault)"
  let ?r = "\<lparr>bucket = ''some-bucket'', key = ''some-key'', bufferSize = 1, byteOffset = 0,
             partial = [], size_bytes = 3\<rparr>"
  let ?r' = "\<lparr>bucket = ''some-bucket'', key = ''some-key'', bufferSize = 1, byteOffset = 2,
              partial = toString ''a,'', size_bytes = 3\<rparr>"
  have h: "toString '','' \<noteq> []" "''a,b'' \<noteq> []"
    "indexOf (toString ''a,b'') (toString '','') = Some 1"
    "byteOffset ?r < size_bytes ?r"
    by (simp_all add: toString_def)
  have c: "fetchChunk ?C (toString '';'') ?r 0 = Continue (?r', 1)"
    by (simp add: fetchChunk_def scanLines_def s3Mock_def readStream_def subarray_def
        toString_def)
  have c1: "fetchChunk_001 ?C (toString '';'') ?r 0 = Continue (?r', 1)"
    by (simp add: fetchChunk_001_def scanLines_001_closed s3Mock_def readStream_def
        subarray_def toString_def)
  from getLines_terminates [where delimiter = "toString '',''" and content = "''a,b''"
      and n = 0 and bufSize = "Some 1" and 'f = unit and client = ?C and r = ?r
      and d = "toString '';''" and s = 0] h c c1
  show ?thesis by blast
qed

section \<open>The size of the chunks\<close>

text \<open>In \<^verbatim>\<open>s3-line-reader.ts\<close> the records and the final value are the same for any two
  buffer sizes when the content is ASCII, so that no character is cut by the boundary
  of a range.\<close>

lemma getLines_chunk_size_independent:
  assumes "d \<noteq> []" and "ascii content"
  shows "\<exists>ls out r1 n1 r2 n2.
           readObject (s3Mock content (NoFault :: 'e fault)) n bufSize1 (Some d)
             = Some (ls, out, Finished, r1, n1) \<and>
           readObject (s3Mock content (NoFault :: 'e fault)) n' bufSize2 (Some d)
             = Some (ls, out, Finished, r2, n2)"
proof -
  have "receivedText content bufSize1 = toString content"
    and "receivedText content bufSize2 = toString content"
    using assms(2) by (rule receivedText_ascii)+
  with readObject_NoFault [OF assms(1), of content n bufSize1]
    readObject_NoFault [OF assms(1), of content n' bufSize2]
  have "\<exists>r' n1. readObject (s3Mock content (NoFault :: 'e fault)) n bufSize1 (Some d)
          = Some (fst (splitAll d (toString content)),
                  Return (snd (splitAll d (toString content))), Finished, r', n1)"
    and "\<exists>r' n2. readObject (s3Mock content (NoFault :: 'e fault)) n' bufSize2 (Some d)
          = Some (fst (splitAll d (toString content)),
                  Return (snd (splitAll d (toString content))), Finished, r', n2)"
    by simp_all
  then show ?thesis by blast
qed

text \<open>
  Claim C2 evaluated on \<^verbatim>\<open>part_001\<close>: the object xxabab with the delimiter ab is read
  in the chunks xxa and bab when the buffer size is 2, and in one chunk when it is 6.
  The two runs differ: the first yields the one record xxab, the second the records
  xx and the empty string.
\<close>

theorem getLines_001_depends_on_chunk_size:
  "map_option (\<lambda>(ls, out, fin). (ls, out))
     (readObject_001 (s3Mock ''xxabab'' (NoFault :: unit fault)) 0 (Some 2) (Some (toString ''ab'')))
     = Some ([toString ''xxab''], Return []) \<and>
   map_option (\<lambda>(ls, out, fin). (ls, out))
     (readObject_001 (s3Mock ''xxabab'' (NoFault :: unit fault)) 0 (Some 6) (Some (toString ''ab'')))
     = Some ([toString ''xx'', []], Return [])"
  by (simp add: readObject_def readObject_001_def getLines_def S3LineReader_def drain.simps
      gen_next_def gen_next_001_def fetchLoop.simps fetchLoop_001.simps fetchChunk_def
      fetchChunk_001_def scanLines_def scanLines_001_closed s3Mock_def readStream_def
      subarray_def substring_def substringFrom_def toString_def)

section \<open>A delimiter across two chunks\<close>

text \<open>The scenario of the tests, with a buffer of 22 bytes, gives the same records in
  both variants.\<close>

lemma straddling_scenario:
  "map_option (\<lambda>(ls, out, fin). (ls, out))
     (readObject
        (s3Mock (''This is the first line'' @ [CHR 0x0D, CHR 0x0A] @ ''This is the second line'')
           (NoFault :: unit fault))
        0 (Some 22) (Some [0x0D, 0x0A]))
     = Some ([toString ''This is the first line''], Return (toString ''This is the second line'')) \<and>
   map_option (\<lambda>(ls, out, fin). (ls, out))
     (readObject_001
        (s3Mock (''This is the first line'' @ [CHR 0x0D, CHR 0x0A] @ ''This is the second line'')
           (NoFault :: unit fault))
        0 (Some 22) (Some [0x0D, 0x0A]))
     = Some ([toString ''This is the first line''], Return (toString ''This is the second line''))"
  by (simp add: readObject_def readObject_001_def getLines_def S3LineReader_def drain.simps
      gen_next_def gen_next_001_def fetchLoop.simps fetchLoop_001.simps fetchChunk_def
      fetchChunk_001_def scanLines_def scanLines_001_closed s3Mock_def readStream_def
      subarray_def substring_def substringFrom_def toString_def)

text \<open>
  Claim C3 evaluated on \<^verbatim>\<open>part_001\<close>: the object of the two lines aa and the empty line,
  each ended by CR LF, is read with a buffer size of 2 in the chunks aa CR and
  LF CR LF. The first delimiter lies across the two chunks and is missed, because the
  second chunk holds a delimiter of its own: the one record yielded is aa CR LF.
\<close>

theorem getLines_001_misses_straddling_delimiter:
  "map_option (\<lambda>(ls, out, fin). (ls, out))
     (readObject_001
        (s3Mock [CHR ''a'', CHR ''a'', CHR 0x0D, CHR 0x0A, CHR 0x0D, CHR 0x0A] (NoFault :: unit fault))
        0 (Some 2) (Some [0x0D, 0x0A]))
     = Some ([toString [CHR ''a'', CHR ''a'', CHR 0x0D, CHR 0x0A]], Return [])"
  by (simp add: readObject_def readObject_001_def getLines_def S3LineReader_def drain.simps
      gen_next_def gen_next_001_def fetchLoop.simps fetchLoop_001.simps fetchChunk_def
      fetchChunk_001_def scanLines_def scanLines_001_closed s3Mock_def readStream_def
      subarray_def substring_def substringFrom_def toString_def)

section \<open>The two ways of carrying text over\<close>

text \<open>
  Claim C9 evaluated: on the object abc--d--e with the delimiter -- and a buffer size
  of 3 (chunks abc-, -d-- and e) the reader of \<^verbatim>\<open>part_001\<close> yields the record abc--d,
  the reader of \<^verbatim>\<open>s3-line-reader.ts\<close> the records abc and d; both return e.
\<close>

theorem getLines_variants_differ:
  "map_option (\<lambda>(ls, out, fin). (ls, out))
     (readObject_001 (s3Mock ''abc--d--e'' (NoFault :: unit fault)) 0 (Some 3) (Some (toString ''--'')))
     = Some ([toString ''abc--d''], Return (toString ''e'')) \<and>
   map_option (\<lambda>(ls, out, fin). (ls, out))
     (readObject (s3Mock ''abc--d--e'' (NoFault :: unit fault)) 0 (Some 3) (Some (toString ''--'')))
     = Some ([toString ''abc'', toString ''d''], Return (toString ''e''))"
  by (simp add: readObject_def readObject_001_def getLines_def S3LineReader_def drain.simps
      gen_next_def gen_next_001_def fetchLoop.simps fetchLoop_001.simps fetchChunk_def
      fetchChunk_001_def scanLines_def scanLines_001_closed s3Mock_def readStream_def
      subarray_def substring_def substringFrom_def toString_def)

end
